theory Spec2Isabelle
  imports Main "HOL-Library.Word" "HOL-Library.AList" "HOL-Library.Char_ord"
    "HOL-Library.List_Lexorder" "HOL-Library.Multiset"
begin

unbundle bit_operations_syntax

section \<open>Data model of main.py\<close>

text \<open>
  Python objects are shared by reference: a \<open>Directory\<close> holds references to its children,
  and \<open>move\<close> re-links an existing object without copying it. The model therefore keeps
  every node in a store (\<open>heap\<close>, a list indexed by address) and lets the \<open>entries\<close> of a
  directory map a name to the address of the child. A Python \<open>dict\<close> keeps its keys in
  insertion order, so \<open>entries\<close> is an association list: \<open>map_of\<close> is the lookup,
  \<open>AList.update\<close> is \<open>d[k] = v\<close> (in place for a present key, at the end for a new one)
  and \<open>AList.delete\<close> is \<open>del d[k]\<close>.

  A Python \<open>str\<close> is modelled by \<open>string\<close>, the sequence of the bytes of its UTF-8 form, and
  \<open>bytes\<close> by a list of 8-bit words; \<open>mode\<close> is a Python \<open>int\<close>, hence unbounded.
\<close>

type_synonym addr = nat
type_synonym bytes = "8 word list"

datatype node =
    is_File: File (name: string) (owner: string) (mode: int) (content: bytes)
  | is_Directory: Directory (name: string) (owner: string) (mode: int)
      (entries: "(string \<times> addr) list")
where
  "entries (File n ow m c) = []"
| "content (Directory n ow m es) = []"

text \<open>Attribute assignment on a node object (\<open>node.name = ...\<close>, \<open>d.entries[...] = ...\<close>,
  \<open>f.content = ...\<close>). The last two are applied by the source to a \<open>Directory\<close> and to a
  \<open>File\<close> only.\<close>

fun set_name :: "node \<Rightarrow> string \<Rightarrow> node" where
  "set_name (File n ow m c) n' = File n' ow m c"
| "set_name (Directory n ow m es) n' = Directory n' ow m es"

fun set_entries :: "node \<Rightarrow> (string \<times> addr) list \<Rightarrow> node" where
  "set_entries (Directory n ow m es) es' = Directory n ow m es'"
| "set_entries (File n ow m c) es' = File n ow m c"

fun set_content :: "node \<Rightarrow> bytes \<Rightarrow> node" where
  "set_content (File n ow m c) c' = File n ow m c'"
| "set_content (Directory n ow m es) c' = Directory n ow m es"

text \<open>The \<open>FileSystem\<close> object. \<open>users\<close> is the key set of the dictionary \<open>self.users\<close>
  (the value stored under a key is \<open>{"name": key}\<close> and is never read); \<open>root\<close> is the
  reference \<open>self.root\<close>.\<close>

record fs =
  users :: "string set"
  heap :: "node list"
  root :: addr

text \<open>The exceptions of the source, one constructor for each kind of failure:
  \<open>FsError("unknown user: ...")\<close>, \<open>FileNotFoundError\<close>, \<open>FsPermissionError\<close>,
  \<open>FsError("path component is a file")\<close> and \<open>FsError("not a directory")\<close>,
  \<open>FsError("path is a directory")\<close>, \<open>FsError("destination already exists: ...")\<close>, and
  \<open>FsError("cannot write to root")\<close>, \<open>FsError("cannot move root")\<close>,
  \<open>FsError("cannot move to root")\<close>.\<close>

datatype error =
    UnknownUser
  | NotFound
  | PermissionDenied
  | NotADirectory
  | IsADirectory
  | AlreadyExists
  | InvalidOperation

datatype perm = R | W | X

datatype data = Str string | Bytes bytes

text \<open>
  \<open>data.encode() if isinstance(data, str) else data\<close>. A \<open>string\<close> of HOL is a list of
  8-bit characters, so \<open>Str s\<close> stands for a \<open>str\<close> whose characters are single-byte under the
  default encoding (ASCII text, as in every call of the source), where \<open>encode\<close> maps each
  character to the byte of its code.
\<close>

fun data_bytes :: "data \<Rightarrow> bytes" where
  "data_bytes (Str s) = map of_char s"
| "data_bytes (Bytes b) = b"

section \<open>Path splitting\<close>

text \<open>\<open>str.split("/")\<close>: the pieces between the separators, never the empty list. The
  scan keeps the piece it is reading in \<open>cur\<close>.\<close>

fun split_from :: "string \<Rightarrow> string \<Rightarrow> string list" where
  "split_from cur [] = [cur]"
| "split_from cur (c # cs) =
     (if c = CHR ''/'' then cur # split_from [] cs else split_from (cur @ [c]) cs)"

definition split_sep :: "string \<Rightarrow> string list" where
  "split_sep p = split_from [] p"

text \<open>\<open>"/".join(comps)\<close>\<close>

fun join_sep :: "string list \<Rightarrow> string" where
  "join_sep [] = []"
| "join_sep [x] = x"
| "join_sep (x # y # ys) = x @ CHR ''/'' # join_sep (y # ys)"

text \<open>
  \<open>os.path.normpath\<close> is the POSIX one of the Python standard library (\<open>os.sep\<close> is
  \<open>"/"\<close>); it is not part of the repository and is modelled after \<open>posixpath.normpath\<close>:
  \<^verbatim>\<open>
    if path == '': return '.'
    initial_slashes = path.startswith('/')
    if initial_slashes and path.startswith('//') and not path.startswith('///'):
        initial_slashes = 2
    comps = path.split('/')
    new_comps = []
    for comp in comps:
        if comp in ('', '.'): continue
        if (comp != '..' or (not initial_slashes and not new_comps) or
                (new_comps and new_comps[-1] == '..')):
            new_comps.append(comp)
        elif new_comps:
            new_comps.pop()
    path = '/'.join(new_comps)
    if initial_slashes: path = '/' * initial_slashes + path
    return path or '.'
  \<close>
\<close>

definition initial_slashes :: "string \<Rightarrow> nat" where
  "initial_slashes path =
     (if take 1 path = ''/'' then
        (if take 2 path = ''//'' \<and> take 3 path \<noteq> ''///'' then 2 else 1)
      else 0)"

fun norm_comps :: "nat \<Rightarrow> string list \<Rightarrow> string list \<Rightarrow> string list" where
  "norm_comps i new_comps [] = new_comps"
| "norm_comps i new_comps (c # comps) =
     (if c = [] \<or> c = ''.'' then norm_comps i new_comps comps
      else if c \<noteq> ''..'' \<or> (i = 0 \<and> new_comps = [])
              \<or> (new_comps \<noteq> [] \<and> last new_comps = ''..'')
        then norm_comps i (new_comps @ [c]) comps
      else if new_comps \<noteq> [] then norm_comps i (butlast new_comps) comps
      else norm_comps i new_comps comps)"

definition normpath :: "string \<Rightarrow> string" where
  "normpath path =
     (if path = [] then ''.''
      else
        let i = initial_slashes path;
            p = replicate i CHR ''/'' @ join_sep (norm_comps i [] (split_sep path))
        in if p = [] then ''.'' else p)"

definition split_path :: "string \<Rightarrow> string list" where
  "split_path path =
     (let p = normpath path in
      if p = ''.'' then []
      else filter (\<lambda>part. part \<noteq> [])
             (split_sep (if take 1 p = ''/'' then drop 1 p else p)))"

section \<open>The file system\<close>

text \<open>\<open>FileSystem.__init__\<close>: no user, and a root directory with mode \<open>0o777\<close>.\<close>

definition init :: fs where
  "init = \<lparr>users = {}, heap = [Directory ''/'' ''root'' 511 []], root = 0\<rparr>"

definition create_user :: "string \<Rightarrow> fs \<Rightarrow> fs" where
  "create_user username s =
     (if username \<in> users s then s else s\<lparr>users := insert username (users s)\<rparr>)"

text \<open>The loop of \<open>_get_node\<close> and of \<open>_get_parent_dir\<close>: follow the entries from \<open>cur\<close>.\<close>

fun walk :: "node list \<Rightarrow> addr \<Rightarrow> string list \<Rightarrow> error + addr" where
  "walk h cur [] = Inr cur"
| "walk h cur (part # parts) =
     (if \<not> is_Directory (h ! cur) then Inl NotFound
      else case map_of (entries (h ! cur)) part of
             None \<Rightarrow> Inl NotFound
           | Some child \<Rightarrow> walk h child parts)"

definition get_node :: "string \<Rightarrow> fs \<Rightarrow> error + addr" where
  "get_node path s = walk (heap s) (root s) (split_path path)"

definition get_parent_dir :: "string \<Rightarrow> fs \<Rightarrow> error + addr" where
  "get_parent_dir path s =
     (let parts = split_path path in
      if parts = [] then Inr (root s)
      else case walk (heap s) (root s) (butlast parts) of
             Inl e \<Rightarrow> Inl e
           | Inr cur \<Rightarrow> if \<not> is_Directory (heap s ! cur) then Inl NotFound else Inr cur)"

text \<open>\<open>_check_perm\<close>: Python's \<open>>>\<close> and \<open>&\<close> on unbounded integers are \<open>drop_bit\<close> and
  \<open>AND\<close> on \<open>int\<close>.\<close>

fun perms_map :: "perm \<Rightarrow> int" where
  "perms_map R = 4"
| "perms_map W = 2"
| "perms_map X = 1"

definition check_perm :: "node \<Rightarrow> string \<Rightarrow> perm \<Rightarrow> bool" where
  "check_perm nd username p =
     (let b = perms_map p;
          shift = (if username = owner nd then 6 else 0)
      in (drop_bit shift (mode nd)) AND b \<noteq> 0)"

text \<open>The test every operation writes before it raises \<open>FsPermissionError\<close>:
  \<open>not self._check_perm(node, username, perm) and username != node.owner\<close>.\<close>

definition denied :: "node \<Rightarrow> string \<Rightarrow> perm \<Rightarrow> bool" where
  "denied nd username p = (\<not> check_perm nd username p \<and> username \<noteq> owner nd)"

text \<open>The operations take the state and return the outcome together with the state the
  call leaves behind: an exception does not undo an assignment made before it. The mode
  is always passed (the source's defaults are \<open>0o755 = 493\<close> for \<open>mkdir\<close> and
  \<open>0o644 = 420\<close> for \<open>write_file\<close>). \<open>cur\<close> in \<open>mkdir\<close> and the parents that
  \<open>_get_parent_dir\<close> returns are \<open>Directory\<close> objects, whose \<open>entries\<close> the source reads
  without a test.\<close>

fun mkdir_loop :: "string list \<Rightarrow> addr \<Rightarrow> string \<Rightarrow> int \<Rightarrow> fs \<Rightarrow> (error + unit) \<times> fs" where
  "mkdir_loop [] cur username md s = (Inr (), s)"
| "mkdir_loop (part # parts) cur username md s =
     (case map_of (entries (heap s ! cur)) part of
        None \<Rightarrow>
          if denied (heap s ! cur) username W then (Inl PermissionDenied, s)
          else
            let newdir = length (heap s);
                h1 = heap s @ [Directory part username md []];
                h2 = h1[cur := set_entries (h1 ! cur)
                                 (AList.update part newdir (entries (h1 ! cur)))]
            in mkdir_loop parts newdir username md (s\<lparr>heap := h2\<rparr>)
      | Some nd \<Rightarrow>
          if is_Directory (heap s ! nd) then mkdir_loop parts nd username md s
          else (Inl NotADirectory, s))"

definition mkdir :: "string \<Rightarrow> string \<Rightarrow> int \<Rightarrow> fs \<Rightarrow> (error + unit) \<times> fs" where
  "mkdir path username md s =
     (if username \<notin> users s then (Inl UnknownUser, s)
      else if path = ''/'' \<or> path = [] then (Inr (), s)
      else mkdir_loop (split_path path) (root s) username md s)"

definition write_file :: "string \<Rightarrow> string \<Rightarrow> data \<Rightarrow> int \<Rightarrow> fs \<Rightarrow> (error + unit) \<times> fs" where
  "write_file path username dat md s =
     (if username \<notin> users s then (Inl UnknownUser, s)
      else
        let parts = split_path path in
        if parts = [] then (Inl InvalidOperation, s)
        else case get_parent_dir path s of
          Inl e \<Rightarrow> (Inl e, s)
        | Inr parent \<Rightarrow>
            if denied (heap s ! parent) username W then (Inl PermissionDenied, s)
            else
              let nm = last parts;
                  bs = data_bytes dat
              in (case map_of (entries (heap s ! parent)) nm of
                   None \<Rightarrow>
                     let f = length (heap s);
                         h1 = heap s @ [File nm username md bs];
                         h2 = h1[parent := set_entries (h1 ! parent)
                                   (AList.update nm f (entries (h1 ! parent)))]
                     in (Inr (), s\<lparr>heap := h2\<rparr>)
                 | Some existing \<Rightarrow>
                     if is_Directory (heap s ! existing) then (Inl IsADirectory, s)
                     else if denied (heap s ! existing) username W
                       then (Inl PermissionDenied, s)
                     else (Inr (), s\<lparr>heap := (heap s)
                             [existing := set_content (heap s ! existing) bs]\<rparr>)))"

definition read_file :: "string \<Rightarrow> string \<Rightarrow> fs \<Rightarrow> (error + bytes) \<times> fs" where
  "read_file path username s =
     (case get_node path s of
        Inl e \<Rightarrow> (Inl e, s)
      | Inr nd \<Rightarrow>
          if is_Directory (heap s ! nd) then (Inl IsADirectory, s)
          else if denied (heap s ! nd) username R then (Inl PermissionDenied, s)
          else (Inr (content (heap s ! nd)), s))"

text \<open>\<open>sorted\<close> on a list of \<open>str\<close> is the lexicographic order of the strings, which is the
  order of \<open>string\<close> (\<open>sort\<close> is stable insertion sort; the keys of a dictionary are
  distinct, so the sorted list is unique).\<close>

definition list_dir :: "string \<Rightarrow> string \<Rightarrow> fs \<Rightarrow> (error + string list) \<times> fs" where
  "list_dir path username s =
     (case (if path \<noteq> [] \<and> path \<noteq> ''/'' then get_node path s else Inr (root s)) of
        Inl e \<Rightarrow> (Inl e, s)
      | Inr nd \<Rightarrow>
          if \<not> is_Directory (heap s ! nd) then (Inl NotADirectory, s)
          else if denied (heap s ! nd) username R then (Inl PermissionDenied, s)
          else (Inr (sort (map fst (entries (heap s ! nd)))), s))"

text \<open>The last three statements of \<open>move\<close>, in the order of the source: each reads the
  store the one before has written, so a parent that is both the source's and the
  destination's, or a destination inside the moved directory, is updated as the
  shared object is.\<close>

definition relink :: "addr \<Rightarrow> string \<Rightarrow> addr \<Rightarrow> addr \<Rightarrow> string \<Rightarrow> node list \<Rightarrow> node list" where
  "relink src_parent src_name src_node dest_parent dest_name h =
     (let h1 = h[src_parent := set_entries (h ! src_parent)
                   (AList.delete src_name (entries (h ! src_parent)))];
          h2 = h1[src_node := set_name (h1 ! src_node) dest_name];
          h3 = h2[dest_parent := set_entries (h2 ! dest_parent)
                   (AList.update dest_name src_node (entries (h2 ! dest_parent)))]
      in h3)"

definition move_dest :: "addr \<Rightarrow> string \<Rightarrow> addr \<Rightarrow> string \<Rightarrow> string \<Rightarrow> fs \<Rightarrow> (error + unit) \<times> fs" where
  "move_dest src_parent src_name src_node dest_path username s =
     (let dest_parts = split_path dest_path in
      if dest_parts = [] then (Inl InvalidOperation, s)
      else case get_parent_dir dest_path s of
        Inl e \<Rightarrow> (Inl e, s)
      | Inr dest_parent \<Rightarrow>
          let dest_name = last dest_parts in
          if denied (heap s ! dest_parent) username W then (Inl PermissionDenied, s)
          else if map_of (entries (heap s ! dest_parent)) dest_name \<noteq> None
            then (Inl AlreadyExists, s)
          else (Inr (), s\<lparr>heap :=
                  relink src_parent src_name src_node dest_parent dest_name (heap s)\<rparr>))"

definition move :: "string \<Rightarrow> string \<Rightarrow> string \<Rightarrow> fs \<Rightarrow> (error + unit) \<times> fs" where
  "move src_path dest_path username s =
     (if username \<notin> users s then (Inl UnknownUser, s)
      else
        let src_parts = split_path src_path in
        if src_parts = [] then (Inl InvalidOperation, s)
        else case get_parent_dir src_path s of
          Inl e \<Rightarrow> (Inl e, s)
        | Inr src_parent \<Rightarrow>
            let src_name = last src_parts in
            (case map_of (entries (heap s ! src_parent)) src_name of
              None \<Rightarrow> (Inl NotFound, s)
            | Some src_node \<Rightarrow>
                if denied (heap s ! src_parent) username W then (Inl PermissionDenied, s)
                else move_dest src_parent src_name src_node dest_path username s))"

section \<open>Invariants of the store\<close>

text \<open>
  A Python reference always points to a live object, the keys of a \<open>dict\<close> are distinct and
  \<open>self.root\<close> is a \<open>Directory\<close>. In the model: the root and every address held in some
  \<open>entries\<close> lie inside the store, an association list has no key twice, and the node at
  \<open>root\<close> is a directory. \<open>init\<close> satisfies this and every operation keeps it, so it
  holds in every state the program can be in (\<open>reachable_heap_ok\<close> below).
\<close>

definition node_ok :: "nat \<Rightarrow> node \<Rightarrow> bool" where
  "node_ok n nd =
     (distinct (map fst (entries nd)) \<and> list_all (\<lambda>e. snd e < n) (entries nd))"

definition heap_ok :: "fs \<Rightarrow> bool" where
  "heap_ok s =
     (root s < length (heap s) \<and> is_Directory (heap s ! root s)
      \<and> list_all (node_ok (length (heap s))) (heap s))"

text \<open>
  The invariant of the data model: the tree is acyclic and rooted, every non-root node is
  reached from the root by exactly one chain of entries. No operation deletes a node, so
  the nodes are the addresses of the store; a chain is a list of names that \<open>walk\<close>
  follows. The root itself is reached by the empty chain only, which excludes a cycle
  through it.
\<close>

definition tree_ok :: "fs \<Rightarrow> bool" where
  "tree_ok s =
     (heap_ok s
      \<and> list_all (\<lambda>a. \<exists>!parts. walk (heap s) (root s) parts = Inr a) [0..<length (heap s)])"

text \<open>What a call may do to the nodes that exist before it: \<open>grows h h'\<close> says that every
  node of \<open>h\<close> is in \<open>h'\<close> with its name, owner, mode, kind and content, and that every
  entry of a directory of \<open>h\<close> is still there.\<close>

definition grows :: "node list \<Rightarrow> node list \<Rightarrow> bool" where
  "grows h h' =
     (length h \<le> length h'
      \<and> (\<forall>a<length h. name (h' ! a) = name (h ! a) \<and> owner (h' ! a) = owner (h ! a)
             \<and> mode (h' ! a) = mode (h ! a) \<and> is_Directory (h' ! a) = is_Directory (h ! a)
             \<and> content (h' ! a) = content (h ! a)
             \<and> (\<forall>k b. map_of (entries (h ! a)) k = Some b
                    \<longrightarrow> map_of (entries (h' ! a)) k = Some b)))"

text \<open>
  What \<open>mkdir\<close> is to add for the missing components of a path, in the words of the
  specification: each one becomes a directory owned by the requesting user with the mode
  argument of the call, created empty and then entered, so that it holds the component
  created next and nothing else. \<open>new_dirs a u md parts\<close> lists these directories, the
  first of them stored at address \<open>a\<close>.
\<close>

fun new_dirs :: "addr \<Rightarrow> string \<Rightarrow> int \<Rightarrow> string list \<Rightarrow> node list" where
  "new_dirs a u md [] = []"
| "new_dirs a u md [part] = [Directory part u md []]"
| "new_dirs a u md (part # next # parts) =
     Directory part u md [(next, Suc a)] # new_dirs (Suc a) u md (next # parts)"

text \<open>The states the program can be in: the fresh file system and what the calls of the
  public interface make of it.\<close>

inductive reachable :: "fs \<Rightarrow> bool" where
  start: "reachable init"
| user: "reachable s \<Longrightarrow> reachable (create_user u s)"
| mkdir: "reachable s \<Longrightarrow> reachable (snd (mkdir path u md s))"
| write_file: "reachable s \<Longrightarrow> reachable (snd (write_file path u dat md s))"
| read_file: "reachable s \<Longrightarrow> reachable (snd (read_file path u s))"
| list_dir: "reachable s \<Longrightarrow> reachable (snd (list_dir path u s))"
| move: "reachable s \<Longrightarrow> reachable (snd (move src dest u s))"

section \<open>The states of the demonstration\<close>

text \<open>The first calls of \<open>_demo_and_tests\<close>: two users, \<open>mkdir("/docs", "alice", 0o777)\<close> and
  a file written by alice (with the default mode \<open>0o644\<close>).\<close>

definition demo_users :: fs where
  "demo_users = create_user ''bob'' (create_user ''alice'' init)"

definition demo_docs :: fs where
  "demo_docs = snd (mkdir ''/docs'' ''alice'' 511 demo_users)"

definition demo_readme :: fs where
  "demo_readme = snd (write_file ''/docs/readme.txt'' ''alice'' (Str ''Hello'') 420 demo_docs)"

text \<open>The listing example of the specification: \<open>"b.txt"\<close> is created before \<open>"a.txt"\<close>
  (here with mode 0, so that only the owner bypass lets alice read it).\<close>

definition demo_two_files :: fs where
  "demo_two_files =
     snd (write_file ''/docs/a.txt'' ''bob'' (Bytes [97]) 420
       (snd (write_file ''/docs/b.txt'' ''alice'' (Bytes [98]) 0 demo_docs)))"

text \<open>A directory moved below itself: \<open>mkdir("/a", "alice")\<close>, then
  \<open>move("/a", "/a/b", "alice")\<close>.\<close>

definition demo_a :: fs where
  "demo_a = snd (mkdir ''/a'' ''alice'' 493 (create_user ''alice'' init))"

definition demo_a_moved :: fs where
  "demo_a_moved = snd (move ''/a'' ''/a/b'' ''alice'' demo_a)"

text \<open>Two nested directories created by one call with mode 0, by a user who does not own
  \<open>/docs\<close>, in the state that already holds alice's file: only the owner bypass lets the
  call create \<open>y\<close> inside the \<open>x\<close> it has just created.\<close>

definition demo_xy :: fs where
  "demo_xy = snd (mkdir ''/docs/x/y'' ''bob'' 0 demo_readme)"
section \<open>Evaluation of the demonstration\<close>

lemmas path_defs = split_path_def normpath_def initial_slashes_def split_sep_def

lemma split_path_empty: "split_path [] = []"
  by (simp add: split_path_def normpath_def)

lemma split_path_root: "split_path ''/'' = []"
  by (simp add: path_defs)

lemma split_path_docs: "split_path ''/docs'' = [''docs'']"
  by (simp add: path_defs)

lemma split_path_readme: "split_path ''/docs/readme.txt'' = [''docs'', ''readme.txt'']"
  by (simp add: path_defs)

lemma split_path_x: "split_path ''/x'' = [''x'']"
  by (simp add: path_defs)

lemma demo_users_eq:
  "demo_users = \<lparr>users = {''bob'', ''alice''}, heap = [Directory ''/'' ''root'' 511 []], root = 0\<rparr>"
  by (simp add: demo_users_def create_user_def init_def)

lemma demo_docs_eq:
  "demo_docs = \<lparr>users = {''bob'', ''alice''},
     heap = [Directory ''/'' ''root'' 511 [(''docs'', 1)], Directory ''docs'' ''alice'' 511 []],
     root = 0\<rparr>"
  by (simp add: demo_docs_def demo_users_eq mkdir_def split_path_docs denied_def check_perm_def
      Let_def)

lemma demo_readme_eq:
  "demo_readme = \<lparr>users = {''bob'', ''alice''},
     heap = [Directory ''/'' ''root'' 511 [(''docs'', 1)],
             Directory ''docs'' ''alice'' 511 [(''readme.txt'', 2)],
             File ''readme.txt'' ''alice'' 420 (data_bytes (Str ''Hello''))],
     root = 0\<rparr>"
  by (simp add: demo_readme_def demo_docs_eq write_file_def get_parent_dir_def split_path_readme
      denied_def check_perm_def Let_def)

lemma heap_ok_init: "heap_ok init"
  by (simp add: init_def heap_ok_def node_ok_def)

lemma heap_ok_demo_docs: "heap_ok demo_docs"
  by (simp add: demo_docs_eq heap_ok_def node_ok_def)

lemma heap_ok_demo_readme: "heap_ok demo_readme"
  by (simp add: demo_readme_eq heap_ok_def node_ok_def)

section \<open>Addresses stay inside the store\<close>

lemma heap_okD:
  assumes "heap_ok s"
  shows "root s < length (heap s)" "is_Directory (heap s ! root s)"
    "\<And>a. a < length (heap s) \<Longrightarrow> distinct (map fst (entries (heap s ! a)))"
    "\<And>a k b. a < length (heap s) \<Longrightarrow> map_of (entries (heap s ! a)) k = Some b
        \<Longrightarrow> b < length (heap s)"
proof -
  show "root s < length (heap s)" "is_Directory (heap s ! root s)"
    using assms by (simp_all add: heap_ok_def)
  have ok: "\<And>a. a < length (heap s) \<Longrightarrow> node_ok (length (heap s)) (heap s ! a)"
    using assms by (simp add: heap_ok_def list_all_length)
  show "\<And>a. a < length (heap s) \<Longrightarrow> distinct (map fst (entries (heap s ! a)))"
    using ok by (simp add: node_ok_def)
  show "\<And>a k b. a < length (heap s) \<Longrightarrow> map_of (entries (heap s ! a)) k = Some b
        \<Longrightarrow> b < length (heap s)"
  proof -
    fix a k b
    assume "a < length (heap s)" and m: "map_of (entries (heap s ! a)) k = Some b"
    then have "list_all (\<lambda>e. snd e < length (heap s)) (entries (heap s ! a))"
      using ok by (simp add: node_ok_def)
    moreover have "(k, b) \<in> set (entries (heap s ! a))"
      using m by (rule map_of_SomeD)
    ultimately show "b < length (heap s)"
      by (auto simp: list_all_iff)
  qed
qed

lemma walk_valid:
  "heap_ok s \<Longrightarrow> cur < length (heap s) \<Longrightarrow> walk (heap s) cur parts = Inr a
   \<Longrightarrow> a < length (heap s)"
proof (induction parts arbitrary: cur)
  case Nil
  then show ?case by simp
next
  case (Cons part parts)
  then show ?case
    by (auto split: if_splits option.splits dest: heap_okD(4))
qed

lemma get_parent_dir_valid:
  assumes "heap_ok s" and "get_parent_dir path s = Inr p"
  shows "p < length (heap s)" and "is_Directory (heap s ! p)"
  using assms heap_okD(1,2) [OF assms(1)] walk_valid [OF assms(1) heap_okD(1) [OF assms(1)]]
  by (auto simp: get_parent_dir_def Let_def split: if_splits sum.splits)

lemma get_node_valid:
  "heap_ok s \<Longrightarrow> get_node path s = Inr a \<Longrightarrow> a < length (heap s)"
  unfolding get_node_def using walk_valid heap_okD(1) by blast

section \<open>A failed call changes nothing\<close>

lemma mkdir_loop_fresh:
  "cur < length (heap s) \<Longrightarrow> entries (heap s ! cur) = [] \<Longrightarrow> owner (heap s ! cur) = u
   \<Longrightarrow> fst (mkdir_loop parts cur u m s) = Inr ()"
proof (induction parts arbitrary: cur s)
  case Nil
  then show ?case by simp
next
  case (Cons part parts)
  let ?s' = "s\<lparr>heap := (heap s @ [Directory part u m []])
      [cur := set_entries ((heap s @ [Directory part u m []]) ! cur)
         (AList.update part (length (heap s)) (entries ((heap s @ [Directory part u m []]) ! cur)))]\<rparr>"
  have "fst (mkdir_loop parts (length (heap s)) u m ?s') = Inr ()"
    using Cons.prems by (intro Cons.IH) (simp_all add: nth_list_update)
  with Cons.prems show ?case
    by (simp add: denied_def Let_def)
qed

lemma mkdir_loop_fail:
  "heap_ok s \<Longrightarrow> cur < length (heap s) \<Longrightarrow> fst (mkdir_loop parts cur u m s) = Inl e
   \<Longrightarrow> snd (mkdir_loop parts cur u m s) = s"
proof (induction parts arbitrary: cur)
  case Nil
  then show ?case by simp
next
  case (Cons part parts)
  show ?case
  proof (cases "map_of (entries (heap s ! cur)) part")
    case None
    show ?thesis
    proof (cases "denied (heap s ! cur) u W")
      case True
      with None show ?thesis by simp
    next
      case False
      let ?s' = "s\<lparr>heap := (heap s @ [Directory part u m []])
        [cur := set_entries ((heap s @ [Directory part u m []]) ! cur)
           (AList.update part (length (heap s)) (entries ((heap s @ [Directory part u m []]) ! cur)))]\<rparr>"
      have "fst (mkdir_loop parts (length (heap s)) u m ?s') = Inr ()"
        using Cons.prems(2) by (intro mkdir_loop_fresh) (simp_all add: nth_list_update)
      with None False Cons.prems show ?thesis
        by (simp add: Let_def)
    qed
  next
    case (Some a)
    then have "a < length (heap s)"
      using Cons.prems heap_okD(4) by blast
    with Some Cons show ?thesis
      by (simp split: if_splits)
  qed
qed

text \<open>
  Claim C4. Whenever \<open>mkdir\<close>, \<open>write_file\<close>, \<open>read_file\<close>, \<open>list_dir\<close> or \<open>move\<close>
  fails, with whatever error, the state after the call is the state before it: the user
  registry and the whole store (structure, names, owners, modes, contents) are unchanged.
  For \<open>mkdir\<close> this rests on \<open>mkdir_loop_fresh\<close>: once the loop has created a directory,
  it is inside a directory the user owns and cannot fail any more.
\<close>

theorem failure_no_effect:
  assumes "heap_ok s"
  shows "(isl (fst (mkdir path u md s)) \<longrightarrow> snd (mkdir path u md s) = s)
       \<and> (isl (fst (write_file path u dat fmd s)) \<longrightarrow> snd (write_file path u dat fmd s) = s)
       \<and> (isl (fst (read_file path u s)) \<longrightarrow> snd (read_file path u s) = s)
       \<and> (isl (fst (list_dir path u s)) \<longrightarrow> snd (list_dir path u s) = s)
       \<and> (isl (fst (move path dest u s)) \<longrightarrow> snd (move path dest u s) = s)"
proof -
  have "isl (fst (mkdir path u md s)) \<longrightarrow> snd (mkdir path u md s) = s"
    using mkdir_loop_fail [OF assms heap_okD(1) [OF assms]]
    by (auto simp: mkdir_def isl_def)
  moreover have "isl (fst (write_file path u dat fmd s)) \<longrightarrow> snd (write_file path u dat fmd s) = s"
    by (simp add: write_file_def Let_def split: sum.splits option.splits)
  moreover have "isl (fst (read_file path u s)) \<longrightarrow> snd (read_file path u s) = s"
    by (simp add: read_file_def split: sum.splits)
  moreover have "isl (fst (list_dir path u s)) \<longrightarrow> snd (list_dir path u s) = s"
    by (simp add: list_dir_def split: sum.splits)
  moreover have "isl (fst (move path dest u s)) \<longrightarrow> snd (move path dest u s) = s"
    by (simp add: move_def move_dest_def Let_def split: sum.splits option.splits)
  ultimately show ?thesis by blast
qed

theorem failure_no_effect_witness:
  "heap_ok init
   \<and> isl (fst (mkdir ''/x'' ''eve'' 493 init)) \<and> snd (mkdir ''/x'' ''eve'' 493 init) = init
   \<and> isl (fst (write_file ''/x'' ''eve'' (Str ''x'') 420 init))
   \<and> snd (write_file ''/x'' ''eve'' (Str ''x'') 420 init) = init
   \<and> isl (fst (read_file ''/x'' ''eve'' init)) \<and> snd (read_file ''/x'' ''eve'' init) = init
   \<and> isl (fst (list_dir ''/x'' ''eve'' init)) \<and> snd (list_dir ''/x'' ''eve'' init) = init
   \<and> isl (fst (move ''/x'' ''/y'' ''eve'' init)) \<and> snd (move ''/x'' ''/y'' ''eve'' init) = init"
proof -
  have a: "isl (fst (mkdir ''/x'' ''eve'' 493 init))"
    by (simp add: mkdir_def init_def)
  have b: "isl (fst (write_file ''/x'' ''eve'' (Str ''x'') 420 init))"
    by (simp add: write_file_def init_def)
  have c: "isl (fst (read_file ''/x'' ''eve'' init))"
    by (simp add: read_file_def get_node_def split_path_x init_def)
  have d: "isl (fst (list_dir ''/x'' ''eve'' init))"
    by (simp add: list_dir_def get_node_def split_path_x init_def)
  have e: "isl (fst (move ''/x'' ''/y'' ''eve'' init))"
    by (simp add: move_def init_def)
  show ?thesis
    using heap_ok_init a b c d e
      failure_no_effect [OF heap_ok_init, of "''/x''" "''eve''" 493 "Str ''x''" 420 "''/y''"]
    by simp
qed

section \<open>Unregistered users\<close>

lemma unknown_user_checked:
  assumes "u \<notin> users s"
  shows "mkdir path u md s = (Inl UnknownUser, s)"
    and "write_file path u dat md s = (Inl UnknownUser, s)"
    and "move path dest u s = (Inl UnknownUser, s)"
  using assms by (simp_all add: mkdir_def write_file_def move_def)

text \<open>
  Claim C2 says that every operation fails with \<open>UnknownUser\<close> for a username that was
  never registered. \<open>mkdir\<close>, \<open>write_file\<close> and \<open>move\<close> do (\<open>unknown_user_checked\<close>), but
  \<open>read_file\<close> and \<open>list_dir\<close> never look at the registry: in the state of the
  demonstration, the unregistered \<open>eve\<close> reads alice's file (mode \<open>0o644\<close>) and lists
  her directory (mode \<open>0o777\<close>).
\<close>

theorem unregistered_user_reads:
  "''eve'' \<notin> users demo_readme
   \<and> read_file ''/docs/readme.txt'' ''eve'' demo_readme
       = (Inr (data_bytes (Str ''Hello'')), demo_readme)
   \<and> list_dir ''/docs'' ''eve'' demo_readme = (Inr [''readme.txt''], demo_readme)"
  by (simp add: demo_readme_eq read_file_def list_dir_def get_node_def split_path_readme
      split_path_docs denied_def check_perm_def)

section \<open>Move never overwrites\<close>

text \<open>
  Claim C5. When the user is registered, the source is listed in its parent, the write
  checks on both parents pass and the final name of the destination is already in the
  entries of the destination's parent, \<open>move\<close> fails with \<open>AlreadyExists\<close>; the source is
  still listed in its parent, still resolves to the same node and is read as before.
\<close>

theorem move_never_overwrites:
  assumes "u \<in> users s"
    and "split_path src \<noteq> []" and "get_parent_dir src s = Inr src_parent"
    and "map_of (entries (heap s ! src_parent)) (last (split_path src)) = Some src_node"
    and "\<not> denied (heap s ! src_parent) u W"
    and "split_path dest \<noteq> []" and "get_parent_dir dest s = Inr dest_parent"
    and "\<not> denied (heap s ! dest_parent) u W"
    and "map_of (entries (heap s ! dest_parent)) (last (split_path dest)) = Some occupant"
  shows "move src dest u s = (Inl AlreadyExists, s)
       \<and> map_of (entries (heap (snd (move src dest u s)) ! src_parent)) (last (split_path src))
           = Some src_node
       \<and> get_node src (snd (move src dest u s)) = get_node src s
       \<and> fst (read_file src reader (snd (move src dest u s))) = fst (read_file src reader s)"
proof -
  have "move src dest u s = (Inl AlreadyExists, s)"
    using assms by (simp add: move_def move_dest_def Let_def)
  then show ?thesis
    using assms(4) by simp
qed

theorem move_never_overwrites_witness:
  "move ''/docs/readme.txt'' ''/docs'' ''alice'' demo_readme = (Inl AlreadyExists, demo_readme)
   \<and> map_of (entries (heap (snd (move ''/docs/readme.txt'' ''/docs'' ''alice'' demo_readme)) ! 1))
         ''readme.txt'' = Some 2
   \<and> fst (read_file ''/docs/readme.txt'' ''bob''
          (snd (move ''/docs/readme.txt'' ''/docs'' ''alice'' demo_readme)))
       = Inr (data_bytes (Str ''Hello''))"
proof -
  have r: "fst (read_file ''/docs/readme.txt'' ''bob'' demo_readme) = Inr (data_bytes (Str ''Hello''))"
    by (simp add: demo_readme_eq read_file_def get_node_def split_path_readme denied_def
        check_perm_def)
  have "move ''/docs/readme.txt'' ''/docs'' ''alice'' demo_readme = (Inl AlreadyExists, demo_readme)
       \<and> map_of (entries (heap (snd (move ''/docs/readme.txt'' ''/docs'' ''alice'' demo_readme)) ! 1))
           (last (split_path ''/docs/readme.txt'')) = Some 2
       \<and> get_node ''/docs/readme.txt'' (snd (move ''/docs/readme.txt'' ''/docs'' ''alice'' demo_readme))
           = get_node ''/docs/readme.txt'' demo_readme
       \<and> fst (read_file ''/docs/readme.txt'' ''bob''
            (snd (move ''/docs/readme.txt'' ''/docs'' ''alice'' demo_readme)))
           = fst (read_file ''/docs/readme.txt'' ''bob'' demo_readme)"
    by (rule move_never_overwrites [where src_parent = 1 and src_node = 2 and dest_parent = 0
          and occupant = 1])
      (simp_all add: demo_readme_eq get_parent_dir_def split_path_readme split_path_docs
        denied_def check_perm_def)
  with r show ?thesis
    by (simp add: split_path_readme demo_readme_eq)
qed

section \<open>Listing a directory\<close>

lemma split_path_a: "split_path ''/docs/a.txt'' = [''docs'', ''a.txt'']"
  by (simp add: path_defs)

lemma split_path_b: "split_path ''/docs/b.txt'' = [''docs'', ''b.txt'']"
  by (simp add: path_defs)

lemma demo_two_files_eq:
  "demo_two_files = \<lparr>users = {''bob'', ''alice''},
     heap = [Directory ''/'' ''root'' 511 [(''docs'', 1)],
             Directory ''docs'' ''alice'' 511 [(''b.txt'', 2), (''a.txt'', 3)],
             File ''b.txt'' ''alice'' 0 [98],
             File ''a.txt'' ''bob'' 420 [97]],
     root = 0\<rparr>"
  by (simp add: demo_two_files_def demo_docs_eq write_file_def get_parent_dir_def split_path_a
      split_path_b denied_def check_perm_def Let_def)

lemma heap_ok_demo_two_files: "heap_ok demo_two_files"
  by (simp add: demo_two_files_eq heap_ok_def node_ok_def)

text \<open>
  Claim C9. For a directory that the requester may read, \<open>list_dir\<close> returns the names of
  the immediate children, each once, in the lexicographic order of strings, and leaves
  the state as it was.
\<close>

theorem list_dir_sorted:
  assumes "heap_ok s" and "get_node path s = Inr d" and "is_Directory (heap s ! d)"
    and "\<not> denied (heap s ! d) u R"
  shows "\<exists>names. list_dir path u s = (Inr names, s) \<and> sorted names \<and> distinct names
           \<and> set names = fst ` set (entries (heap s ! d))"
proof -
  have d: "(if path \<noteq> [] \<and> path \<noteq> ''/'' then get_node path s else Inr (root s)) = Inr d"
    using assms(2) by (auto simp: get_node_def split_path_empty split_path_root)
  have "d < length (heap s)"
    using assms(1,2) by (rule get_node_valid)
  then have "distinct (map fst (entries (heap s ! d)))"
    using heap_okD(3) [OF assms(1)] by simp
  then have "distinct (sort (map fst (entries (heap s ! d))))"
    by simp
  moreover have "list_dir path u s = (Inr (sort (map fst (entries (heap s ! d)))), s)"
    using assms(3,4) by (simp add: list_dir_def d)
  ultimately show ?thesis
    by simp
qed

theorem list_dir_sorted_witness:
  "heap_ok demo_two_files \<and> get_node ''/docs'' demo_two_files = Inr 1
   \<and> is_Directory (heap demo_two_files ! 1) \<and> \<not> denied (heap demo_two_files ! 1) ''bob'' R
   \<and> list_dir ''/docs'' ''bob'' demo_two_files = (Inr [''a.txt'', ''b.txt''], demo_two_files)
   \<and> (\<exists>names. list_dir ''/docs'' ''bob'' demo_two_files = (Inr names, demo_two_files)
         \<and> sorted names \<and> distinct names
         \<and> set names = fst ` set (entries (heap demo_two_files ! 1)))"
proof -
  have g: "get_node ''/docs'' demo_two_files = Inr 1"
    by (simp add: demo_two_files_eq get_node_def split_path_docs)
  have k: "is_Directory (heap demo_two_files ! 1)"
    by (simp add: demo_two_files_eq)
  have p: "\<not> denied (heap demo_two_files ! 1) ''bob'' R"
    by (simp add: demo_two_files_eq denied_def check_perm_def)
  have l: "list_dir ''/docs'' ''bob'' demo_two_files = (Inr [''a.txt'', ''b.txt''], demo_two_files)"
    by (simp add: demo_two_files_eq list_dir_def get_node_def split_path_docs denied_def
        check_perm_def)
  show ?thesis
    using heap_ok_demo_two_files g k p l
      list_dir_sorted [OF heap_ok_demo_two_files g k p]
    by blast
qed

section \<open>The permission rule\<close>

lemma and_pow2_bit: "((k::int) AND 2 ^ n \<noteq> 0) = bit k n"
  by (simp add: and_exp_eq_0_iff_not_bit)

lemma check_perm_bit:
  "check_perm nd u R = bit (mode nd) (if u = owner nd then 8 else 2)"
  "check_perm nd u W = bit (mode nd) (if u = owner nd then 7 else 1)"
  "check_perm nd u X = bit (mode nd) (if u = owner nd then 6 else 0)"
  using and_pow2_bit [of "drop_bit 6 (mode nd)" 2] and_pow2_bit [of "drop_bit 6 (mode nd)" 1]
    and_pow2_bit [of "drop_bit 6 (mode nd)" 0] and_pow2_bit [of "mode nd" 2]
    and_pow2_bit [of "mode nd" 1] and_pow2_bit [of "mode nd" 0]
  by (simp_all add: check_perm_def bit_drop_bit_eq)

text \<open>
  Claim C6. For every node, username and required access, the test that guards each
  operation grants access exactly when the bit of the required access (4, 2, 1 for read,
  write, execute) is set in the relevant triplet of the mode, or the username is the
  owner of the node. The relevant triplet is the owner's (shift 6, bits 8, 7, 6 of the
  mode) for the owner and the others' (shift 0, bits 2, 1, 0) for everybody else. In
  particular the owner of a node passes every check, whatever the mode. Seen from the
  operations: reading a file and listing a directory succeed under exactly that
  condition.
\<close>

theorem access_rule:
  "(\<not> denied nd u R) = (bit (mode nd) (if u = owner nd then 8 else 2) \<or> u = owner nd)
   \<and> (\<not> denied nd u W) = (bit (mode nd) (if u = owner nd then 7 else 1) \<or> u = owner nd)
   \<and> (\<not> denied nd u X) = (bit (mode nd) (if u = owner nd then 6 else 0) \<or> u = owner nd)
   \<and> \<not> denied nd (owner nd) p
   \<and> (get_node path s = Inr a \<and> is_File (heap s ! a) \<longrightarrow>
        fst (read_file path u s) =
          (if bit (mode (heap s ! a)) (if u = owner (heap s ! a) then 8 else 2)
              \<or> u = owner (heap s ! a)
           then Inr (content (heap s ! a)) else Inl PermissionDenied))
   \<and> (get_node path s = Inr a \<and> is_Directory (heap s ! a) \<longrightarrow>
        fst (list_dir path u s) =
          (if bit (mode (heap s ! a)) (if u = owner (heap s ! a) then 8 else 2)
              \<or> u = owner (heap s ! a)
           then Inr (sort (map fst (entries (heap s ! a)))) else Inl PermissionDenied))"
proof -
  have d: "(\<not> denied nd u R) = (bit (mode nd) (if u = owner nd then 8 else 2) \<or> u = owner nd)"
    for nd
    by (simp add: denied_def check_perm_bit)
  have f: "is_File (heap s ! a) \<Longrightarrow> \<not> is_Directory (heap s ! a)"
    by (cases "heap s ! a") simp_all
  have l: "get_node path s = Inr a \<Longrightarrow>
      (if path \<noteq> [] \<and> path \<noteq> ''/'' then get_node path s else Inr (root s)) = Inr a"
    by (auto simp: get_node_def split_path_empty split_path_root)
  have "get_node path s = Inr a \<and> is_File (heap s ! a) \<longrightarrow>
        fst (read_file path u s) =
          (if bit (mode (heap s ! a)) (if u = owner (heap s ! a) then 8 else 2)
              \<or> u = owner (heap s ! a)
           then Inr (content (heap s ! a)) else Inl PermissionDenied)"
    using d [of "heap s ! a"] f by (auto simp: read_file_def)
  moreover have "get_node path s = Inr a \<and> is_Directory (heap s ! a) \<longrightarrow>
        fst (list_dir path u s) =
          (if bit (mode (heap s ! a)) (if u = owner (heap s ! a) then 8 else 2)
              \<or> u = owner (heap s ! a)
           then Inr (sort (map fst (entries (heap s ! a)))) else Inl PermissionDenied)"
    using d [of "heap s ! a"] l by (auto simp: list_dir_def)
  ultimately show ?thesis
    by (simp add: denied_def check_perm_bit)
qed

theorem access_rule_witness:
  "get_node ''/docs/b.txt'' demo_two_files = Inr 2 \<and> is_File (heap demo_two_files ! 2)
   \<and> mode (heap demo_two_files ! 2) = 0
   \<and> fst (read_file ''/docs/b.txt'' ''alice'' demo_two_files) = Inr [98]
   \<and> fst (read_file ''/docs/b.txt'' ''bob'' demo_two_files) = Inl PermissionDenied
   \<and> get_node ''/docs'' demo_two_files = Inr 1 \<and> is_Directory (heap demo_two_files ! 1)
   \<and> fst (list_dir ''/docs'' ''bob'' demo_two_files) = Inr [''a.txt'', ''b.txt'']"
proof -
  have g: "get_node ''/docs/b.txt'' demo_two_files = Inr 2 \<and> is_File (heap demo_two_files ! 2)"
    "get_node ''/docs'' demo_two_files = Inr 1 \<and> is_Directory (heap demo_two_files ! 1)"
    by (simp_all add: demo_two_files_eq get_node_def split_path_b split_path_docs)
  have "fst (read_file ''/docs/b.txt'' ''alice'' demo_two_files) = Inr [98]"
    using g(1) access_rule [where path = "''/docs/b.txt''" and s = demo_two_files and a = 2
        and u = "''alice''"]
    by (simp add: demo_two_files_eq)
  moreover have "fst (read_file ''/docs/b.txt'' ''bob'' demo_two_files) = Inl PermissionDenied"
    using g(1) access_rule [where path = "''/docs/b.txt''" and s = demo_two_files and a = 2
        and u = "''bob''"]
    by (simp add: demo_two_files_eq)
  moreover have "fst (list_dir ''/docs'' ''bob'' demo_two_files) = Inr [''a.txt'', ''b.txt'']"
    using g(2) access_rule [where path = "''/docs''" and s = demo_two_files and a = 1
        and u = "''bob''"]
    by (simp add: demo_two_files_eq)
  ultimately show ?thesis
    using g by (simp add: demo_two_files_eq)
qed
section \<open>Writing a file\<close>

lemma update_new_key: "map_of al k = None \<Longrightarrow> AList.update k v al = al @ [(k, v)]"
  by (induction al) (auto split: if_splits)

text \<open>
  Claim C7. Let a registered user hold write permission on the resolved parent. If the
  final name is absent from the parent, \<open>write_file\<close> creates a file owned by the requester
  with the given mode and data and appends it to the entries of the parent, with no
  further check. If the final name is a file, the call fails with \<open>PermissionDenied\<close>
  unless the requester may write that file; otherwise the content of the file is replaced
  by the data as a whole and nothing else changes.
\<close>

theorem write_file_rule:
  assumes "heap_ok s" and "u \<in> users s" and "split_path path \<noteq> []"
    and "get_parent_dir path s = Inr parent" and "\<not> denied (heap s ! parent) u W"
  shows "(map_of (entries (heap s ! parent)) (last (split_path path)) = None \<longrightarrow>
            write_file path u dat md s =
              (Inr (), s\<lparr>heap := (heap s @ [File (last (split_path path)) u md (data_bytes dat)])
                 [parent := set_entries (heap s ! parent)
                    (entries (heap s ! parent) @ [(last (split_path path), length (heap s))])]\<rparr>))
       \<and> (\<forall>f. map_of (entries (heap s ! parent)) (last (split_path path)) = Some f
               \<and> is_File (heap s ! f) \<longrightarrow>
            write_file path u dat md s =
              (if denied (heap s ! f) u W then (Inl PermissionDenied, s)
               else (Inr (), s\<lparr>heap := (heap s)
                       [f := File (name (heap s ! f)) (owner (heap s ! f)) (mode (heap s ! f))
                               (data_bytes dat)]\<rparr>)))"
proof -
  have p: "parent < length (heap s)"
    using assms(1,4) by (rule get_parent_dir_valid)
  have "\<And>f. is_File (heap s ! f) \<Longrightarrow>
      set_content (heap s ! f) (data_bytes dat)
        = File (name (heap s ! f)) (owner (heap s ! f)) (mode (heap s ! f)) (data_bytes dat)"
    by (case_tac "heap s ! f") simp_all
  moreover have "\<And>f. is_File (heap s ! f) \<Longrightarrow> \<not> is_Directory (heap s ! f)"
    by (case_tac "heap s ! f") simp_all
  ultimately show ?thesis
    using assms p by (simp add: write_file_def Let_def nth_append update_new_key)
qed

theorem write_file_rule_witness:
  "write_file ''/docs/readme.txt'' ''alice'' (Str ''Hello'') 420 demo_docs = (Inr (), demo_readme)
   \<and> write_file ''/docs/readme.txt'' ''alice'' (Bytes [1]) 420 demo_readme
       = (Inr (), demo_readme\<lparr>heap := (heap demo_readme)[2 := File ''readme.txt'' ''alice'' 420 [1]]\<rparr>)
   \<and> write_file ''/docs/readme.txt'' ''bob'' (Bytes [1]) 420 demo_readme
       = (Inl PermissionDenied, demo_readme)"
proof -
  have sp: "split_path ''/docs/readme.txt'' \<noteq> []"
    by (simp add: split_path_readme)
  have u1: "''alice'' \<in> users demo_docs" and g1: "get_parent_dir ''/docs/readme.txt'' demo_docs = Inr 1"
    and p1: "\<not> denied (heap demo_docs ! 1) ''alice'' W"
    by (simp_all add: demo_docs_eq get_parent_dir_def split_path_readme denied_def check_perm_def)
  have u2: "''alice'' \<in> users demo_readme" "''bob'' \<in> users demo_readme"
    and g2: "get_parent_dir ''/docs/readme.txt'' demo_readme = Inr 1"
    and p2: "\<not> denied (heap demo_readme ! 1) ''alice'' W"
      "\<not> denied (heap demo_readme ! 1) ''bob'' W"
    by (simp_all add: demo_readme_eq get_parent_dir_def split_path_readme denied_def
        check_perm_def)
  have a: "write_file ''/docs/readme.txt'' ''alice'' (Str ''Hello'') 420 demo_docs = (Inr (), demo_readme)"
    using write_file_rule [OF heap_ok_demo_docs u1 sp g1 p1, of "Str ''Hello''" 420]
    by (simp add: demo_docs_eq demo_readme_eq split_path_readme)
  have b: "write_file ''/docs/readme.txt'' ''alice'' (Bytes [1]) 420 demo_readme
       = (Inr (), demo_readme\<lparr>heap := (heap demo_readme)[2 := File ''readme.txt'' ''alice'' 420 [1]]\<rparr>)"
    using write_file_rule [OF heap_ok_demo_readme u2(1) sp g2 p2(1), of "Bytes [1]" 420]
    by (simp add: demo_readme_eq split_path_readme denied_def check_perm_def)
  have d: "write_file ''/docs/readme.txt'' ''bob'' (Bytes [1]) 420 demo_readme
       = (Inl PermissionDenied, demo_readme)"
    using write_file_rule [OF heap_ok_demo_readme u2(2) sp g2 p2(2), of "Bytes [1]" 420]
    by (simp add: demo_readme_eq split_path_readme denied_def check_perm_def)
  show ?thesis
    using a b d by simp
qed

section \<open>A directory moved below itself\<close>

lemma split_path_a1: "split_path ''/a'' = [''a'']"
  by (simp add: path_defs)

lemma split_path_ab: "split_path ''/a/b'' = [''a'', ''b'']"
  by (simp add: path_defs)

lemma demo_a_eq:
  "demo_a = \<lparr>users = {''alice''},
     heap = [Directory ''/'' ''root'' 511 [(''a'', 1)], Directory ''a'' ''alice'' 493 []],
     root = 0\<rparr>"
  by (simp add: demo_a_def create_user_def init_def mkdir_def split_path_a1 denied_def
      check_perm_def Let_def)

lemma move_demo_a:
  "move ''/a'' ''/a/b'' ''alice'' demo_a =
     (Inr (), \<lparr>users = {''alice''},
        heap = [Directory ''/'' ''root'' 511 [], Directory ''b'' ''alice'' 493 [(''b'', 1)]],
        root = 0\<rparr>)"
  by (simp add: demo_a_eq move_def move_dest_def relink_def get_parent_dir_def split_path_a1
      split_path_ab denied_def check_perm_def Let_def AList.delete_eq)

lemma walk_demo_a:
  "walk (heap demo_a) (root demo_a) parts = Inr a
   \<longleftrightarrow> (parts = [] \<and> a = 0) \<or> (parts = [''a''] \<and> a = 1)"
proof (cases parts)
  case Nil
  then show ?thesis by (auto simp: demo_a_eq)
next
  case (Cons p ps)
  then show ?thesis by (cases ps) (auto simp: demo_a_eq)
qed

lemma tree_ok_demo_a: "tree_ok demo_a"
proof -
  have "\<exists>!parts. walk (heap demo_a) (root demo_a) parts = Inr 0"
    unfolding walk_demo_a by simp
  moreover have "\<exists>!parts. walk (heap demo_a) (root demo_a) parts = Inr 1"
    unfolding walk_demo_a by simp
  moreover have "heap_ok demo_a" "[0..<length (heap demo_a)] = [0, 1]"
    by (simp_all add: demo_a_eq heap_ok_def node_ok_def upt_conv_Cons)
  ultimately show ?thesis
    by (simp add: tree_ok_def)
qed

lemma demo_a_moved_eq:
  "demo_a_moved = \<lparr>users = {''alice''},
     heap = [Directory ''/'' ''root'' 511 [], Directory ''b'' ''alice'' 493 [(''b'', 1)]],
     root = 0\<rparr>"
  by (simp add: demo_a_moved_def move_demo_a)

lemma walk_demo_a_moved: "walk (heap demo_a_moved) (root demo_a_moved) parts \<noteq> Inr 1"
  by (cases parts) (simp_all add: demo_a_moved_eq)

text \<open>
  Claim C1 says that every operation keeps the tree acyclic and rooted, every node being
  reached from the root by exactly one chain of entries. \<open>move\<close> does not: it never tests
  whether the destination's parent lies inside the moved directory. After
  \<open>mkdir("/a", "alice")\<close> the tree is rooted; \<open>move("/a", "/a/b", "alice")\<close> succeeds, the
  root is left with no entry, and the moved directory, now named \<open>b\<close>, holds itself under
  the name \<open>b\<close>: it is reached from the root by no chain, nothing is found at the
  destination path, and from the directory itself the chain \<open>b, b, ...\<close> cycles.
\<close>

theorem move_below_itself:
  "reachable demo_a \<and> tree_ok demo_a
   \<and> move ''/a'' ''/a/b'' ''alice'' demo_a = (Inr (), demo_a_moved)
   \<and> heap demo_a_moved
       = [Directory ''/'' ''root'' 511 [], Directory ''b'' ''alice'' 493 [(''b'', 1)]]
   \<and> get_node ''/a/b'' demo_a_moved = Inl NotFound
   \<and> walk (heap demo_a_moved) 1 [''b'', ''b''] = Inr 1
   \<and> \<not> tree_ok demo_a_moved"
proof -
  have "\<not> (\<exists>!parts. walk (heap demo_a_moved) (root demo_a_moved) parts = Inr 1)"
  proof
    assume "\<exists>!parts. walk (heap demo_a_moved) (root demo_a_moved) parts = Inr 1"
    then obtain ps where ps: "walk (heap demo_a_moved) (root demo_a_moved) ps = Inr 1"
      by (rule ex1E)
    from walk_demo_a_moved [of ps] ps show False
      by (rule notE)
  qed
  moreover have "[0..<length (heap demo_a_moved)] = [0, 1]"
    by (simp add: demo_a_moved_eq upt_conv_Cons)
  ultimately have "\<not> tree_ok demo_a_moved"
    by (simp add: tree_ok_def)
  moreover have "get_node ''/a/b'' demo_a_moved = Inl NotFound"
    by (simp add: get_node_def demo_a_moved_eq split_path_ab)
  moreover have "walk (heap demo_a_moved) 1 [''b'', ''b''] = Inr 1"
    by (simp add: demo_a_moved_eq)
  moreover have "move ''/a'' ''/a/b'' ''alice'' demo_a = (Inr (), demo_a_moved)"
    by (simp add: demo_a_moved_def move_demo_a)
  moreover have "heap demo_a_moved
       = [Directory ''/'' ''root'' 511 [], Directory ''b'' ''alice'' 493 [(''b'', 1)]]"
    by (simp add: demo_a_moved_eq)
  moreover have "reachable demo_a"
    unfolding demo_a_def by (intro reachable.intros)
  ultimately show ?thesis
    using tree_ok_demo_a by simp
qed
section \<open>Stores that agree on the old nodes\<close>

lemma set_entries_sel [simp]:
  "name (set_entries nd es) = name nd" "owner (set_entries nd es) = owner nd"
  "mode (set_entries nd es) = mode nd" "is_Directory (set_entries nd es) = is_Directory nd"
  "content (set_entries nd es) = content nd"
  "entries (set_entries nd es) = (if is_Directory nd then es else [])"
  by (cases nd; simp)+

lemma set_content_sel [simp]:
  "name (set_content nd c) = name nd" "owner (set_content nd c) = owner nd"
  "mode (set_content nd c) = mode nd" "is_Directory (set_content nd c) = is_Directory nd"
  "entries (set_content nd c) = entries nd"
  "content (set_content nd c) = (if is_Directory nd then [] else c)"
  by (cases nd; simp)+

lemma set_name_sel [simp]:
  "name (set_name nd n) = n" "owner (set_name nd n) = owner nd"
  "mode (set_name nd n) = mode nd" "is_Directory (set_name nd n) = is_Directory nd"
  "entries (set_name nd n) = entries nd" "content (set_name nd n) = content nd"
  by (cases nd; simp)+

lemma walk_append:
  "walk h cur (ps @ qs) = (case walk h cur ps of Inl e \<Rightarrow> Inl e | Inr a \<Rightarrow> walk h a qs)"
  by (induction ps arbitrary: cur) (auto split: option.splits)

lemma walk_cong:
  assumes "\<And>a. is_Directory (h' ! a) = is_Directory (h ! a)"
    and "\<And>a. entries (h' ! a) = entries (h ! a)"
  shows "walk h' cur parts = walk h cur parts"
  by (induction parts arbitrary: cur) (simp_all add: assms split: option.splits)

lemma entries_not_dir: "\<not> is_Directory nd \<Longrightarrow> entries nd = []"
  by (cases nd) simp_all

lemma nth_list_update_any: "(h[e := x]) ! a = (if a = e \<and> e < length h then x else h ! a)"
  by (cases "e < length h") (simp_all add: nth_list_update list_update_beyond)

lemma grows_refl: "grows h h"
  by (simp add: grows_def)

lemma grows_trans:
  assumes "grows h1 h2" and "grows h2 h3"
  shows "grows h1 h3"
  unfolding grows_def
proof (intro conjI allI impI)
  show "length h1 \<le> length h3"
    using assms by (simp add: grows_def)
next
  fix a assume a: "a < length h1"
  then have a2: "a < length h2"
    using assms(1) by (simp add: grows_def)
  show "name (h3 ! a) = name (h1 ! a)" "owner (h3 ! a) = owner (h1 ! a)"
    "mode (h3 ! a) = mode (h1 ! a)" "is_Directory (h3 ! a) = is_Directory (h1 ! a)"
    "content (h3 ! a) = content (h1 ! a)"
    using assms a a2 by (simp_all add: grows_def)
  fix k b assume "map_of (entries (h1 ! a)) k = Some b"
  then have "map_of (entries (h2 ! a)) k = Some b"
    using assms(1) a by (simp add: grows_def)
  then show "map_of (entries (h3 ! a)) k = Some b"
    using assms(2) a2 by (simp add: grows_def)
qed

lemma walk_grows:
  "heap_ok s \<Longrightarrow> grows (heap s) h' \<Longrightarrow> cur < length (heap s)
   \<Longrightarrow> walk (heap s) cur parts = Inr a \<Longrightarrow> walk h' cur parts = Inr a"
proof (induction parts arbitrary: cur)
  case Nil
  then show ?case by simp
next
  case (Cons part parts)
  from Cons.prems(4) obtain child where d: "is_Directory (heap s ! cur)"
    and c: "map_of (entries (heap s ! cur)) part = Some child"
    and w: "walk (heap s) child parts = Inr a"
    by (auto split: if_splits option.splits)
  have "child < length (heap s)"
    using heap_okD(4) [OF Cons.prems(1) Cons.prems(3) c] .
  then have "walk h' child parts = Inr a"
    using Cons.IH Cons.prems(1,2) w by blast
  moreover have "is_Directory (h' ! cur)" "map_of (entries (h' ! cur)) part = Some child"
    using Cons.prems(2,3) d c by (auto simp: grows_def)
  ultimately show ?case by simp
qed

lemma grows_add_child:
  assumes "p < length h" and "map_of (entries (h ! p)) k = None"
  shows "grows h ((h @ [n])[p := set_entries ((h @ [n]) ! p)
                     (AList.update k v (entries ((h @ [n]) ! p)))])"
  using assms
  by (auto simp: grows_def nth_list_update nth_append update_conv' entries_not_dir)

section \<open>Every operation keeps the invariant of the store\<close>

lemma heap_ok_iff:
  "heap_ok s \<longleftrightarrow> root s < length (heap s) \<and> is_Directory (heap s ! root s)
     \<and> (\<forall>a<length (heap s). node_ok (length (heap s)) (heap s ! a))"
  by (simp add: heap_ok_def list_all_length)

lemma node_ok_mono: "node_ok n nd \<Longrightarrow> n \<le> n' \<Longrightarrow> node_ok n' nd"
  by (auto simp: node_ok_def list_all_iff)

lemma set_update_subset: "set (AList.update k v al) \<subseteq> insert (k, v) (set al)"
  by (induction al) auto

lemma node_ok_update:
  assumes "node_ok n nd" and "v < n"
  shows "node_ok n (set_entries nd (AList.update k v (entries nd)))"
proof -
  have "list_all (\<lambda>e. snd e < n) (AList.update k v (entries nd))"
    using assms set_update_subset [of k v "entries nd"]
    by (auto simp: node_ok_def list_all_iff)
  then show ?thesis
    using assms(1) by (simp add: node_ok_def distinct_update)
qed

lemma node_ok_delete:
  assumes "node_ok n nd"
  shows "node_ok n (set_entries nd (AList.delete k (entries nd)))"
proof -
  have "set (AList.delete k (entries nd)) \<subseteq> set (entries nd)"
    by (simp add: AList.delete_eq)
  then have "list_all (\<lambda>e. snd e < n) (AList.delete k (entries nd))"
    using assms by (auto simp: node_ok_def list_all_iff)
  then show ?thesis
    using assms by (simp add: node_ok_def distinct_delete)
qed

lemma node_ok_set_name: "node_ok n (set_name nd nm) = node_ok n nd"
  by (simp add: node_ok_def)

lemma node_ok_set_content: "node_ok n (set_content nd c) = node_ok n nd"
  by (simp add: node_ok_def)

lemma heap_ok_create_user: "heap_ok s \<Longrightarrow> heap_ok (create_user u s)"
  by (simp add: heap_ok_def create_user_def)

lemma heap_ok_add_child:
  assumes "heap_ok s" and "p < length (heap s)" and "entries n = []"
  shows "heap_ok (s\<lparr>heap := (heap s @ [n])[p := set_entries ((heap s @ [n]) ! p)
            (AList.update k (length (heap s)) (entries ((heap s @ [n]) ! p)))]\<rparr>)"
proof -
  let ?h = "heap s" and ?l = "length (heap s)"
  have ok: "\<And>a. a < ?l \<Longrightarrow> node_ok (Suc ?l) (?h ! a)"
    using assms(1) node_ok_mono [of ?l _ "Suc ?l"] by (simp add: heap_ok_iff)
  have new: "node_ok (Suc ?l) n"
    using assms(3) by (simp add: node_ok_def)
  have upd: "node_ok (Suc ?l) (set_entries (?h ! p) (AList.update k ?l (entries (?h ! p))))"
    using ok [OF assms(2)] by (rule node_ok_update) simp
  show ?thesis
    unfolding heap_ok_iff
  proof (intro conjI allI impI)
    show "root (s\<lparr>heap := (?h @ [n])[p := set_entries ((?h @ [n]) ! p)
            (AList.update k ?l (entries ((?h @ [n]) ! p)))]\<rparr>)
          < length (heap (s\<lparr>heap := (?h @ [n])[p := set_entries ((?h @ [n]) ! p)
            (AList.update k ?l (entries ((?h @ [n]) ! p)))]\<rparr>))"
      using assms(1) by (simp add: heap_ok_iff)
    show "is_Directory (heap (s\<lparr>heap := (?h @ [n])[p := set_entries ((?h @ [n]) ! p)
            (AList.update k ?l (entries ((?h @ [n]) ! p)))]\<rparr>)
          ! root (s\<lparr>heap := (?h @ [n])[p := set_entries ((?h @ [n]) ! p)
            (AList.update k ?l (entries ((?h @ [n]) ! p)))]\<rparr>))"
      using assms(1,2) by (simp add: heap_ok_iff nth_list_update nth_append)
    fix a
    assume "a < length (heap (s\<lparr>heap := (?h @ [n])[p := set_entries ((?h @ [n]) ! p)
            (AList.update k ?l (entries ((?h @ [n]) ! p)))]\<rparr>))"
    then have "a < ?l \<or> a = ?l"
      by auto
    then show "node_ok (length (heap (s\<lparr>heap := (?h @ [n])[p := set_entries ((?h @ [n]) ! p)
            (AList.update k ?l (entries ((?h @ [n]) ! p)))]\<rparr>)))
         (heap (s\<lparr>heap := (?h @ [n])[p := set_entries ((?h @ [n]) ! p)
            (AList.update k ?l (entries ((?h @ [n]) ! p)))]\<rparr>) ! a)"
      using ok new upd assms(2) by (auto simp: nth_list_update nth_append)
  qed
qed

lemma heap_ok_mkdir_loop:
  "heap_ok s \<Longrightarrow> cur < length (heap s) \<Longrightarrow> heap_ok (snd (mkdir_loop parts cur u m s))"
proof (induction parts arbitrary: cur s)
  case Nil
  then show ?case by simp
next
  case (Cons part parts)
  show ?case
  proof (cases "map_of (entries (heap s ! cur)) part")
    case None
    let ?s1 = "s\<lparr>heap := (heap s @ [Directory part u m []])
        [cur := set_entries ((heap s @ [Directory part u m []]) ! cur)
           (AList.update part (length (heap s))
              (entries ((heap s @ [Directory part u m []]) ! cur)))]\<rparr>"
    have "heap_ok ?s1"
      using Cons.prems by (intro heap_ok_add_child) simp_all
    then have "heap_ok (snd (mkdir_loop parts (length (heap s)) u m ?s1))"
      by (rule Cons.IH) simp
    then show ?thesis
      using None Cons.prems(1) by (simp add: Let_def)
  next
    case (Some child)
    then have "child < length (heap s)"
      using heap_okD(4) Cons.prems by blast
    then show ?thesis
      using Some Cons by simp
  qed
qed

lemma heap_ok_mkdir: "heap_ok s \<Longrightarrow> heap_ok (snd (mkdir path u m s))"
  using heap_ok_mkdir_loop [of s "root s"] heap_okD(1) [of s] by (simp add: mkdir_def)

lemma heap_ok_write_file:
  assumes "heap_ok s"
  shows "heap_ok (snd (write_file path u dat m s))"
proof (cases "fst (write_file path u dat m s)")
  case (Inl e)
  then have "snd (write_file path u dat m s) = s"
    by (simp add: write_file_def Let_def split: if_splits sum.splits option.splits)
  then show ?thesis
    using assms by simp
next
  case (Inr x)
  then obtain p where gp: "get_parent_dir path s = Inr p"
    by (auto simp: write_file_def Let_def split: if_splits sum.splits)
  have p: "p < length (heap s)"
    using get_parent_dir_valid(1) [OF assms gp] .
  show ?thesis
  proof (cases "map_of (entries (heap s ! p)) (last (split_path path))")
    case None
    have "heap_ok (s\<lparr>heap := (heap s @ [File (last (split_path path)) u m (data_bytes dat)])
        [p := set_entries ((heap s @ [File (last (split_path path)) u m (data_bytes dat)]) ! p)
           (AList.update (last (split_path path)) (length (heap s))
              (entries ((heap s @ [File (last (split_path path)) u m (data_bytes dat)]) ! p)))]\<rparr>)"
      using assms p by (rule heap_ok_add_child) simp
    then show ?thesis
      using assms gp None by (simp add: write_file_def Let_def)
  next
    case (Some e)
    have "heap_ok (s\<lparr>heap := (heap s)[e := set_content (heap s ! e) (data_bytes dat)]\<rparr>)"
      using assms
      by (auto simp: heap_ok_iff nth_list_update_any node_ok_set_content)
    then show ?thesis
      using assms gp Some by (simp add: write_file_def Let_def)
  qed
qed

lemma nodes_ok_upd:
  assumes "\<forall>a<length h. node_ok n (h ! a)" and "i < length h \<Longrightarrow> node_ok n x"
  shows "\<forall>a<length h. node_ok n (h[i := x] ! a)"
  using assms by (simp add: nth_list_update_any)

lemma kind_upd:
  "is_Directory x = is_Directory (h ! i) \<Longrightarrow> is_Directory (h[i := x] ! a) = is_Directory (h ! a)"
  by (simp add: nth_list_update_any)

lemma heap_ok_relink:
  assumes "heap_ok s" and "sn < length (heap s)"
  shows "heap_ok (s\<lparr>heap := relink sp k sn dp k' (heap s)\<rparr>)"
proof -
  let ?l = "length (heap s)"
  let ?h1 = "(heap s)[sp := set_entries (heap s ! sp) (AList.delete k (entries (heap s ! sp)))]"
  let ?h2 = "?h1[sn := set_name (?h1 ! sn) k']"
  let ?h3 = "?h2[dp := set_entries (?h2 ! dp) (AList.update k' sn (entries (?h2 ! dp)))]"
  have 0: "\<forall>a<length (heap s). node_ok ?l (heap s ! a)"
    using assms(1) by (simp add: heap_ok_iff)
  have 1: "\<forall>a<length ?h1. node_ok ?l (?h1 ! a)"
    using nodes_ok_upd [OF 0, of sp] 0 node_ok_delete by simp
  have 2: "\<forall>a<length ?h2. node_ok ?l (?h2 ! a)"
    using nodes_ok_upd [OF 1, of sn "set_name (?h1 ! sn) k'"] 1
    by (simp add: node_ok_set_name)
  have "dp < length ?h2 \<Longrightarrow> node_ok ?l (?h2 ! dp)"
    using 2 by blast
  then have "dp < length ?h2 \<Longrightarrow>
      node_ok ?l (set_entries (?h2 ! dp) (AList.update k' sn (entries (?h2 ! dp))))"
    using assms(2) by (rule node_ok_update)
  then have 3: "\<forall>a<length ?h2. node_ok ?l (?h3 ! a)"
    by (rule nodes_ok_upd [OF 2])
  have "is_Directory (?h3 ! root s) = is_Directory (heap s ! root s)"
    by (simp add: kind_upd)
  then have "is_Directory (?h3 ! root s)"
    using assms(1) by (simp add: heap_ok_iff)
  then show ?thesis
    using 3 assms(1) by (simp add: heap_ok_iff relink_def Let_def)
qed

lemma heap_ok_move:
  assumes "heap_ok s"
  shows "heap_ok (snd (move src dest u s))"
proof (cases "fst (move src dest u s)")
  case (Inl e)
  then have "snd (move src dest u s) = s"
    by (simp add: move_def move_dest_def Let_def split: if_splits sum.splits option.splits)
  then show ?thesis
    using assms by simp
next
  case (Inr x)
  then obtain sp sn dp where sp: "get_parent_dir src s = Inr sp"
    and sn: "map_of (entries (heap s ! sp)) (last (split_path src)) = Some sn"
    and r: "snd (move src dest u s) = s\<lparr>heap :=
        relink sp (last (split_path src)) sn dp (last (split_path dest)) (heap s)\<rparr>"
    by (auto simp: move_def move_dest_def Let_def split: if_splits sum.splits option.splits)
  have "sp < length (heap s)"
    using get_parent_dir_valid(1) [OF assms sp] .
  then have "sn < length (heap s)"
    using heap_okD(4) [OF assms _ sn] by simp
  then show ?thesis
    using heap_ok_relink [OF assms] r by simp
qed

lemma reachable_heap_ok: "reachable s \<Longrightarrow> heap_ok s"
proof (induction rule: reachable.induct)
  case start
  show ?case by (rule heap_ok_init)
next
  case (user s u)
  then show ?case by (simp add: heap_ok_create_user)
next
  case (mkdir s path u md)
  then show ?case by (simp add: heap_ok_mkdir)
next
  case (write_file s path u dat md)
  then show ?case by (simp add: heap_ok_write_file)
next
  case (read_file s path u)
  then show ?case by (simp add: read_file_def split: sum.splits)
next
  case (list_dir s path u)
  then show ?case by (simp add: list_dir_def split: sum.splits)
next
  case (move s src dest u)
  then show ?case by (simp add: heap_ok_move)
qed
section \<open>Writing, then reading\<close>

lemma write_then_read:
  assumes ok: "heap_ok s" and w: "fst (write_file path u dat md s) = Inr ()"
  shows "fst (read_file path u (snd (write_file path u dat md s))) = Inr (data_bytes dat)
       \<or> fst (read_file path u (snd (write_file path u dat md s))) = Inl PermissionDenied"
proof -
  let ?h = "heap s" and ?parts = "split_path path"
  let ?nm = "last ?parts"
  from w have ne: "?parts \<noteq> []"
    by (auto simp: write_file_def Let_def split: if_splits)
  from w ne obtain p where gp: "get_parent_dir path s = Inr p"
    by (auto simp: write_file_def Let_def split: if_splits sum.splits)
  have p: "p < length ?h" and pd: "is_Directory (?h ! p)"
    using get_parent_dir_valid [OF ok gp] by simp_all
  have wp: "walk ?h (root s) (butlast ?parts) = Inr p"
    using gp ne by (auto simp: get_parent_dir_def Let_def split: if_splits sum.splits)
  have parts: "?parts = butlast ?parts @ [?nm]"
    using ne by simp
  have r: "root s < length ?h"
    using heap_okD(1) [OF ok] .
  show ?thesis
  proof (cases "map_of (entries (?h ! p)) ?nm")
    case None
    let ?h2 = "(?h @ [File ?nm u md (data_bytes dat)])
        [p := set_entries ((?h @ [File ?nm u md (data_bytes dat)]) ! p)
                (AList.update ?nm (length ?h)
                   (entries ((?h @ [File ?nm u md (data_bytes dat)]) ! p)))]"
    have s': "snd (write_file path u dat md s) = s\<lparr>heap := ?h2\<rparr>"
      using w ne gp None by (auto simp: write_file_def Let_def split: if_splits)
    have "grows ?h ?h2"
      using p None by (rule grows_add_child)
    then have "walk ?h2 (root s) (butlast ?parts) = Inr p"
      using walk_grows [OF ok _ r wp] by blast
    moreover have "walk ?h2 p [?nm] = Inr (length ?h)"
      using p pd by (simp add: nth_append update_conv')
    ultimately have "walk ?h2 (root s) ?parts = Inr (length ?h)"
      using walk_append [of ?h2 "root s" "butlast ?parts" "[?nm]"] parts by simp
    moreover have "?h2 ! length ?h = File ?nm u md (data_bytes dat)"
      using p by (simp add: nth_list_update)
    ultimately have "fst (read_file path u (s\<lparr>heap := ?h2\<rparr>)) = Inr (data_bytes dat)"
      by (simp add: read_file_def get_node_def denied_def)
    then show ?thesis
      using s' by simp
  next
    case (Some e)
    let ?h2 = "?h[e := set_content (?h ! e) (data_bytes dat)]"
    have nd: "\<not> is_Directory (?h ! e)"
      using w ne gp Some by (auto simp: write_file_def Let_def split: if_splits)
    have s': "snd (write_file path u dat md s) = s\<lparr>heap := ?h2\<rparr>"
      using w ne gp Some by (auto simp: write_file_def Let_def split: if_splits)
    have e: "e < length ?h"
      using heap_okD(4) [OF ok p Some] .
    have "walk ?h2 (root s) ?parts = walk ?h (root s) ?parts"
      by (rule walk_cong) (simp_all add: nth_list_update_any)
    moreover have "walk ?h (root s) ?parts = Inr e"
      using walk_append [of ?h "root s" "butlast ?parts" "[?nm]"] parts wp pd Some by simp
    moreover have "?h2 ! e = set_content (?h ! e) (data_bytes dat)"
      using e by simp
    ultimately have "fst (read_file path u (s\<lparr>heap := ?h2\<rparr>)) = Inr (data_bytes dat)
        \<or> fst (read_file path u (s\<lparr>heap := ?h2\<rparr>)) = Inl PermissionDenied"
      using nd by (simp add: read_file_def get_node_def)
    then show ?thesis
      using s' by simp
  qed
qed

text \<open>
  Claim C3. When \<open>write_file(p, u, data)\<close> succeeds and the following \<open>read_file(p, u)\<close>
  succeeds, what is read is exactly what was written: the bytes \<open>b\<close> themselves for data
  \<open>b\<close> of type \<open>bytes\<close>, and the encoding of the string, byte for byte, for data of type
  \<open>str\<close>. A successful write implies that the user is registered, that the path is not
  the root and that the parent directory exists; by \<open>write_then_read\<close> the read can only
  fail with \<open>PermissionDenied\<close>, which happens when an existing file of another owner is
  writable but not readable for the user.
\<close>

theorem write_read_roundtrip:
  assumes "heap_ok s" and "fst (write_file path u dat md s) = Inr ()"
    and "fst (read_file path u (snd (write_file path u dat md s))) = Inr r"
  shows "(\<forall>b. dat = Bytes b \<longrightarrow> r = b) \<and> (\<forall>st. dat = Str st \<longrightarrow> r = map of_char st)"
proof -
  have "r = data_bytes dat"
    using write_then_read [OF assms(1,2)] assms(3) by auto
  then show ?thesis
    by auto
qed

theorem write_read_roundtrip_witness:
  "heap_ok demo_readme
   \<and> fst (write_file ''/docs/readme.txt'' ''alice'' (Bytes [0, 255, 10]) 420 demo_readme) = Inr ()
   \<and> fst (read_file ''/docs/readme.txt'' ''alice''
          (snd (write_file ''/docs/readme.txt'' ''alice'' (Bytes [0, 255, 10]) 420 demo_readme)))
       = Inr [0, 255, 10]
   \<and> fst (write_file ''/docs/readme.txt'' ''alice'' (Str ''Hello'') 420 demo_docs) = Inr ()
   \<and> fst (read_file ''/docs/readme.txt'' ''alice''
          (snd (write_file ''/docs/readme.txt'' ''alice'' (Str ''Hello'') 420 demo_docs)))
       = Inr (map of_char ''Hello'')"
proof -
  have w: "write_file ''/docs/readme.txt'' ''alice'' (Bytes [0, 255, 10]) 420 demo_readme
      = (Inr (), demo_readme\<lparr>heap := (heap demo_readme)
           [2 := File ''readme.txt'' ''alice'' 420 [0, 255, 10]]\<rparr>)"
    by (simp add: demo_readme_eq write_file_def get_parent_dir_def split_path_readme denied_def
        check_perm_def Let_def)
  have a: "fst (write_file ''/docs/readme.txt'' ''alice'' (Bytes [0, 255, 10]) 420 demo_readme)
      = Inr ()"
    by (simp add: w)
  have "\<exists>r. fst (read_file ''/docs/readme.txt'' ''alice''
          (snd (write_file ''/docs/readme.txt'' ''alice'' (Bytes [0, 255, 10]) 420 demo_readme)))
       = Inr r"
    unfolding w
    by (simp add: demo_readme_eq read_file_def get_node_def split_path_readme denied_def)
  then obtain r where b: "fst (read_file ''/docs/readme.txt'' ''alice''
          (snd (write_file ''/docs/readme.txt'' ''alice'' (Bytes [0, 255, 10]) 420 demo_readme)))
       = Inr r"
    by blast
  have r: "r = [0, 255, 10]"
    using write_read_roundtrip [OF heap_ok_demo_readme a b] by simp
  have w': "write_file ''/docs/readme.txt'' ''alice'' (Str ''Hello'') 420 demo_docs
      = (Inr (), demo_readme)"
    by (simp add: demo_docs_eq demo_readme_eq write_file_def get_parent_dir_def
        split_path_readme denied_def check_perm_def Let_def)
  have a': "fst (write_file ''/docs/readme.txt'' ''alice'' (Str ''Hello'') 420 demo_docs) = Inr ()"
    by (simp add: w')
  have "\<exists>r. fst (read_file ''/docs/readme.txt'' ''alice''
          (snd (write_file ''/docs/readme.txt'' ''alice'' (Str ''Hello'') 420 demo_docs)))
       = Inr r"
    unfolding w'
    by (simp add: demo_readme_eq read_file_def get_node_def split_path_readme denied_def)
  then obtain r' where b': "fst (read_file ''/docs/readme.txt'' ''alice''
          (snd (write_file ''/docs/readme.txt'' ''alice'' (Str ''Hello'') 420 demo_docs)))
       = Inr r'"
    by blast
  have r': "r' = map of_char ''Hello''"
    using write_read_roundtrip [OF heap_ok_demo_docs a' b'] by simp
  show ?thesis
    using heap_ok_demo_readme a b r a' b' r' by simp
qed
section \<open>Creating directories\<close>

lemma mkdir_loop_existing:
  "walk (heap s) cur parts = Inr d \<Longrightarrow> is_Directory (heap s ! d)
   \<Longrightarrow> mkdir_loop parts cur u m s = (Inr (), s)"
proof (induction parts arbitrary: cur)
  case Nil
  then show ?case by simp
next
  case (Cons part parts)
  from Cons.prems(1) obtain child where c: "map_of (entries (heap s ! cur)) part = Some child"
    and w: "walk (heap s) child parts = Inr d"
    by (auto split: if_splits option.splits)
  have "is_Directory (heap s ! child)"
    using w Cons.prems(2) by (cases parts) (auto split: if_splits)
  then show ?case
    using c Cons.IH [OF w Cons.prems(2)] by simp
qed

lemma mkdir_loop_fresh_shape:
  assumes "Suc cur = length (heap s)" and "heap s ! cur = Directory nm u m []"
  shows "\<exists>h'. mkdir_loop parts cur u m s = (Inr (), s\<lparr>heap := h'\<rparr>)
           \<and> length h' = length (heap s) + length parts
           \<and> (\<forall>a<cur. h' ! a = heap s ! a)
           \<and> walk h' cur parts = Inr (cur + length parts)
           \<and> (\<forall>a. cur \<le> a \<and> a < length h' \<longrightarrow>
                 h' ! a = Directory ((nm # parts) ! (a - cur)) u m
                            (if Suc a < length h' then [(parts ! (a - cur), Suc a)] else []))"
  using assms
proof (induction parts arbitrary: cur s nm)
  case Nil
  have "\<And>a. cur \<le> a \<Longrightarrow> a < length (heap s) \<Longrightarrow> a = cur"
    using Nil.prems(1) by simp
  then have "\<forall>a. cur \<le> a \<and> a < length (heap s) \<longrightarrow> heap s ! a = Directory nm u m []"
    using Nil.prems(2) by blast
  then show ?case
    using Nil.prems by (intro exI [of _ "heap s"]) simp
next
  case (Cons part parts)
  let ?h = "heap s"
  let ?h2 = "(?h @ [Directory part u m []])[cur := Directory nm u m [(part, Suc cur)]]"
  let ?s1 = "s\<lparr>heap := ?h2\<rparr>"
  have c: "cur < length ?h"
    using Cons.prems(1) by simp
  have step: "mkdir_loop (part # parts) cur u m s = mkdir_loop parts (Suc cur) u m ?s1"
    using Cons.prems c by (simp add: denied_def Let_def nth_append)
  have "Suc (Suc cur) = length (heap ?s1)" "heap ?s1 ! Suc cur = Directory part u m []"
    using Cons.prems(1) c by (simp_all add: nth_append)
  from Cons.IH [OF this] obtain h' where
    r: "mkdir_loop parts (Suc cur) u m ?s1 = (Inr (), ?s1\<lparr>heap := h'\<rparr>)"
    and l: "length h' = length (heap ?s1) + length parts"
    and old: "\<forall>a<Suc cur. h' ! a = heap ?s1 ! a"
    and w: "walk h' (Suc cur) parts = Inr (Suc cur + length parts)"
    and new: "\<forall>a. Suc cur \<le> a \<and> a < length h' \<longrightarrow>
                 h' ! a = Directory ((part # parts) ! (a - Suc cur)) u m
                            (if Suc a < length h' then [(parts ! (a - Suc cur), Suc a)] else [])"
    by blast
  have l': "length h' = length ?h + length (part # parts)"
    using l by simp
  have hc: "h' ! cur = Directory nm u m [(part, Suc cur)]"
    using old c by simp
  have o': "\<forall>a<cur. h' ! a = ?h ! a"
    using old c by (simp add: nth_append)
  have w': "walk h' cur (part # parts) = Inr (cur + length (part # parts))"
    using hc w by simp
  have n': "\<forall>a. cur \<le> a \<and> a < length h' \<longrightarrow>
                 h' ! a = Directory ((nm # part # parts) ! (a - cur)) u m
                    (if Suc a < length h' then [((part # parts) ! (a - cur), Suc a)] else [])"
  proof (intro allI impI)
    fix a assume a: "cur \<le> a \<and> a < length h'"
    show "h' ! a = Directory ((nm # part # parts) ! (a - cur)) u m
                    (if Suc a < length h' then [((part # parts) ! (a - cur), Suc a)] else [])"
    proof (cases "a = cur")
      case True
      then show ?thesis
        using hc l' Cons.prems(1) by simp
    next
      case False
      then have "Suc cur \<le> a" and "a - cur = Suc (a - Suc cur)"
        using a by arith+
      then show ?thesis
        using new a by simp
    qed
  qed
  show ?case
    using step r l' o' w' n' by (intro exI [of _ h']) simp
qed

lemma mkdir_loop_effect:
  assumes "heap_ok s" and "cur < length (heap s)" and "is_Directory (heap s ! cur)"
    and "mkdir_loop parts cur u m s = (Inr (), s')"
  shows "users s' = users s \<and> root s' = root s \<and> grows (heap s) (heap s')
       \<and> (\<exists>d. walk (heap s') cur parts = Inr d \<and> is_Directory (heap s' ! d))
       \<and> (\<forall>a. length (heap s) \<le> a \<and> a < length (heap s') \<longrightarrow>
             (\<exists>nm es. heap s' ! a = Directory nm u m es \<and> nm \<in> set parts
                \<and> (es = [] \<or> (\<exists>k. es = [(k, Suc a)]))))"
  using assms(2-)
proof (induction parts arbitrary: cur)
  case Nil
  then show ?case by (auto simp: grows_refl)
next
  case (Cons part parts)
  let ?h = "heap s"
  show ?case
  proof (cases "map_of (entries (?h ! cur)) part")
    case None
    let ?h2 = "(?h @ [Directory part u m []])
        [cur := set_entries ((?h @ [Directory part u m []]) ! cur)
           (AList.update part (length ?h) (entries ((?h @ [Directory part u m []]) ! cur)))]"
    let ?s1 = "s\<lparr>heap := ?h2\<rparr>"
    have run: "mkdir_loop parts (length ?h) u m ?s1 = (Inr (), s')"
      using Cons.prems(3) None by (simp add: Let_def split: if_splits)
    have g2: "grows ?h ?h2"
      using Cons.prems(1) None by (rule grows_add_child)
    have "Suc (length ?h) = length (heap ?s1)" "heap ?s1 ! length ?h = Directory part u m []"
      using Cons.prems(1) by (simp_all add: nth_list_update)
    from mkdir_loop_fresh_shape [OF this, of parts] run obtain h' where
      s': "s' = ?s1\<lparr>heap := h'\<rparr>"
      and l: "length h' = length (heap ?s1) + length parts"
      and old: "\<forall>a<length ?h. h' ! a = heap ?s1 ! a"
      and w: "walk h' (length ?h) parts = Inr (length ?h + length parts)"
      and new: "\<forall>a. length ?h \<le> a \<and> a < length h' \<longrightarrow>
                 h' ! a = Directory ((part # parts) ! (a - length ?h)) u m
                    (if Suc a < length h' then [(parts ! (a - length ?h), Suc a)] else [])"
      by auto
    have l': "length h' = Suc (length ?h + length parts)"
      using l by simp
    have g: "grows ?h h'"
      using g2 old l' unfolding grows_def by simp
    have c: "h' ! cur = ?h2 ! cur"
      using old Cons.prems(1) by simp
    have "is_Directory (h' ! cur)" "map_of (entries (h' ! cur)) part = Some (length ?h)"
      using c Cons.prems(1,2) by (simp_all add: nth_append update_conv')
    then have wk: "walk h' cur (part # parts) = Inr (length ?h + length parts)"
      using w by simp
    have "h' ! (length ?h + length parts)
        = Directory ((part # parts) ! length parts) u m
            (if Suc (length ?h + length parts) < length h'
             then [(parts ! length parts, Suc (length ?h + length parts))] else [])"
      using new [rule_format, of "length ?h + length parts"] l' by simp
    then have dl: "is_Directory (h' ! (length ?h + length parts))"
      by simp
    have nn: "\<forall>a. length ?h \<le> a \<and> a < length h' \<longrightarrow>
             (\<exists>nm es. h' ! a = Directory nm u m es \<and> nm \<in> set (part # parts)
                \<and> (es = [] \<or> (\<exists>k. es = [(k, Suc a)])))"
    proof (intro allI impI)
      fix a assume a: "length ?h \<le> a \<and> a < length h'"
      then have "a - length ?h < length (part # parts)"
        using l' by auto
      then have "(part # parts) ! (a - length ?h) \<in> set (part # parts)"
        by (rule nth_mem)
      then show "\<exists>nm es. h' ! a = Directory nm u m es \<and> nm \<in> set (part # parts)
                \<and> (es = [] \<or> (\<exists>k. es = [(k, Suc a)]))"
        using new [rule_format, OF a] by auto
    qed
    show ?thesis
      using s' g wk dl nn by simp
  next
    case (Some child)
    have d: "is_Directory (?h ! child)" and run: "mkdir_loop parts child u m s = (Inr (), s')"
      using Cons.prems(3) Some by (simp_all split: if_splits)
    have ch: "child < length ?h"
      using heap_okD(4) [OF assms(1) Cons.prems(1) Some] .
    from Cons.IH [OF ch d run] obtain e where
      r: "users s' = users s" "root s' = root s" and g: "grows ?h (heap s')"
      and w: "walk (heap s') child parts = Inr e" "is_Directory (heap s' ! e)"
      and new: "\<forall>a. length ?h \<le> a \<and> a < length (heap s') \<longrightarrow>
             (\<exists>nm es. heap s' ! a = Directory nm u m es \<and> nm \<in> set parts
                \<and> (es = [] \<or> (\<exists>k. es = [(k, Suc a)])))"
      by blast
    have "is_Directory (heap s' ! cur)" "map_of (entries (heap s' ! cur)) part = Some child"
      using g Cons.prems(1,2) Some by (auto simp: grows_def)
    then have "walk (heap s') cur (part # parts) = Inr e"
      using w(1) by simp
    moreover have "\<forall>a. length ?h \<le> a \<and> a < length (heap s') \<longrightarrow>
             (\<exists>nm es. heap s' ! a = Directory nm u m es \<and> nm \<in> set (part # parts)
                \<and> (es = [] \<or> (\<exists>k. es = [(k, Suc a)])))"
      using new by fastforce
    ultimately show ?thesis
      using r g w(2) by blast
  qed
qed

lemma mkdir_loop_prefix:
  "walk (heap s) cur pre = Inr c \<Longrightarrow> is_Directory (heap s ! c)
   \<Longrightarrow> mkdir_loop (pre @ rest) cur u m s = mkdir_loop rest c u m s"
proof (induction pre arbitrary: cur)
  case Nil
  then show ?case by simp
next
  case (Cons part pre)
  from Cons.prems(1) obtain child where c: "map_of (entries (heap s ! cur)) part = Some child"
    and w: "walk (heap s) child pre = Inr c"
    by (auto split: if_splits option.splits)
  have "is_Directory (heap s ! child)"
    using w Cons.prems(2) by (cases pre) (auto split: if_splits)
  then show ?case
    using c Cons.IH [OF w Cons.prems(2)] by simp
qed

lemma mkdir_loop_fresh_exact:
  assumes "Suc cur = length (heap s)" and "heap s ! cur = Directory nm u m []"
  shows "mkdir_loop rest cur u m s
           = (Inr (), s\<lparr>heap := take cur (heap s) @ new_dirs cur u m (nm # rest)\<rparr>)"
  using assms
proof (induction rest arbitrary: cur s nm)
  case Nil
  have "take cur (heap s) @ [heap s ! cur] = heap s"
    using Nil.prems(1) take_Suc_conv_app_nth [of cur "heap s"] by simp
  then show ?case
    using Nil.prems(2) by simp
next
  case (Cons part rest)
  let ?h = "heap s"
  let ?h2 = "(?h @ [Directory part u m []])[cur := Directory nm u m [(part, Suc cur)]]"
  let ?s1 = "s\<lparr>heap := ?h2\<rparr>"
  have c: "cur < length ?h"
    using Cons.prems(1) by simp
  have step: "mkdir_loop (part # rest) cur u m s = mkdir_loop rest (Suc cur) u m ?s1"
    using Cons.prems c by (simp add: denied_def Let_def nth_append)
  have "Suc (Suc cur) = length (heap ?s1)" "heap ?s1 ! Suc cur = Directory part u m []"
    using Cons.prems(1) c by (simp_all add: nth_append)
  from Cons.IH [OF this]
  have r: "mkdir_loop rest (Suc cur) u m ?s1
      = (Inr (), s\<lparr>heap := take (Suc cur) ?h2 @ new_dirs (Suc cur) u m (part # rest)\<rparr>)"
    by simp
  have "take (Suc cur) ?h2 = take cur ?h @ [Directory nm u m [(part, Suc cur)]]"
    using c Cons.prems(1) [symmetric]
    by (simp add: list_update_append1 upd_conv_take_nth_drop)
  then show ?case
    using step r by simp
qed

lemma mkdir_loop_create:
  assumes "c < length (heap s)" and "is_Directory (heap s ! c)"
    and "map_of (entries (heap s ! c)) part = None" and "\<not> denied (heap s ! c) u W"
  shows "mkdir_loop (part # rest) c u md s =
      (Inr (), s\<lparr>heap := (heap s)[c := Directory (name (heap s ! c)) (owner (heap s ! c))
                   (mode (heap s ! c)) (entries (heap s ! c) @ [(part, length (heap s))])]
                 @ new_dirs (length (heap s)) u md (part # rest)\<rparr>)"
proof -
  let ?h = "heap s"
  let ?X = "Directory (name (?h ! c)) (owner (?h ! c)) (mode (?h ! c))
              (entries (?h ! c) @ [(part, length ?h)])"
  let ?h2 = "(?h @ [Directory part u md []])[c := ?X]"
  let ?s1 = "s\<lparr>heap := ?h2\<rparr>"
  have X: "set_entries (?h ! c) (AList.update part (length ?h) (entries (?h ! c))) = ?X"
    using assms(2,3) by (cases "?h ! c") (simp_all add: update_new_key)
  have step: "mkdir_loop (part # rest) c u md s = mkdir_loop rest (length ?h) u md ?s1"
    using assms X by (simp add: Let_def nth_append)
  have "Suc (length ?h) = length (heap ?s1)" "heap ?s1 ! length ?h = Directory part u md []"
    using assms(1) by (simp_all add: nth_list_update)
  from mkdir_loop_fresh_exact [OF this, of rest]
  have "mkdir_loop rest (length ?h) u md ?s1
      = (Inr (), s\<lparr>heap := take (length ?h) ?h2 @ new_dirs (length ?h) u md (part # rest)\<rparr>)"
    by simp
  moreover have "take (length ?h) ?h2 = ?h[c := ?X]"
    using assms(1) by (simp add: list_update_append1)
  ultimately show ?thesis
    using step by simp
qed

lemma mkdir_at:
  assumes "u \<in> users s" and "split_path path = pre @ part # rest"
    and "walk (heap s) (root s) pre = Inr c" and "is_Directory (heap s ! c)"
  shows "mkdir path u md s = mkdir_loop (part # rest) c u md s"
proof -
  have "\<not> (path = ''/'' \<or> path = [])"
    using assms(2) by (auto simp: split_path_empty split_path_root)
  then have "mkdir path u md s = mkdir_loop (pre @ part # rest) (root s) u md s"
    using assms(1,2) by (simp add: mkdir_def)
  then show ?thesis
    using mkdir_loop_prefix [OF assms(3,4)] by simp
qed

text \<open>
  Claim C8. For a registered user, \<open>mkdir\<close> walks the components of the path from the
  root. If the whole path resolves to a directory, the call succeeds and changes nothing.
  If the components \<open>pre\<close> lead to a directory \<open>c\<close> in which the next component \<open>part\<close> is
  missing, the call fails with \<open>PermissionDenied\<close> when the user may not write \<open>c\<close>, and
  otherwise it succeeds with exactly this state: \<open>c\<close> keeps its name, owner and mode and
  gets the entry \<open>part\<close> appended, every other node is as it was, and \<open>part\<close> and all the
  components after it are added as \<open>new_dirs\<close>: directories owned by the user, with the mode
  argument of the call, each holding only the next one. If the next component is a file,
  the call fails with \<open>NotADirectory\<close>. Whenever the call succeeds, the path resolves to
  a directory afterwards and every old node keeps its name, owner, mode, kind, content
  and entries (\<open>grows\<close>).
\<close>

theorem mkdir_rule:
  assumes "heap_ok s" and "u \<in> users s"
  shows "(\<forall>d. get_node path s = Inr d \<and> is_Directory (heap s ! d) \<longrightarrow>
            mkdir path u md s = (Inr (), s))
       \<and> (\<forall>pre part rest c.
            split_path path = pre @ part # rest \<and> walk (heap s) (root s) pre = Inr c
            \<and> is_Directory (heap s ! c) \<and> map_of (entries (heap s ! c)) part = None \<longrightarrow>
            mkdir path u md s =
              (if denied (heap s ! c) u W then (Inl PermissionDenied, s)
               else (Inr (), s\<lparr>heap :=
                       (heap s)[c := Directory (name (heap s ! c)) (owner (heap s ! c))
                                  (mode (heap s ! c))
                                  (entries (heap s ! c) @ [(part, length (heap s))])]
                       @ new_dirs (length (heap s)) u md (part # rest)\<rparr>)))
       \<and> (\<forall>pre part rest c f.
            split_path path = pre @ part # rest \<and> walk (heap s) (root s) pre = Inr c
            \<and> is_Directory (heap s ! c) \<and> map_of (entries (heap s ! c)) part = Some f
            \<and> is_File (heap s ! f) \<longrightarrow>
            mkdir path u md s = (Inl NotADirectory, s))
       \<and> (\<forall>s'. mkdir path u md s = (Inr (), s') \<longrightarrow>
            users s' = users s \<and> root s' = root s \<and> grows (heap s) (heap s')
            \<and> (\<exists>d. get_node path s' = Inr d \<and> is_Directory (heap s' ! d))
            \<and> (\<forall>a. length (heap s) \<le> a \<and> a < length (heap s') \<longrightarrow>
                  (\<exists>nm es. heap s' ! a = Directory nm u md es \<and> nm \<in> set (split_path path)
                     \<and> (es = [] \<or> (\<exists>k. es = [(k, Suc a)])))))"
proof (intro conjI allI impI)
  fix d assume "get_node path s = Inr d \<and> is_Directory (heap s ! d)"
  then show "mkdir path u md s = (Inr (), s)"
    using assms(2) mkdir_loop_existing [of s "root s" "split_path path" d u md]
    by (simp add: mkdir_def get_node_def)
next
  fix pre part rest c
  assume h: "split_path path = pre @ part # rest \<and> walk (heap s) (root s) pre = Inr c
            \<and> is_Directory (heap s ! c) \<and> map_of (entries (heap s ! c)) part = None"
  then have m: "mkdir path u md s = mkdir_loop (part # rest) c u md s"
    using mkdir_at [OF assms(2)] by blast
  have c: "c < length (heap s)"
    using walk_valid [OF assms(1) heap_okD(1) [OF assms(1)]] h by blast
  show "mkdir path u md s =
              (if denied (heap s ! c) u W then (Inl PermissionDenied, s)
               else (Inr (), s\<lparr>heap :=
                       (heap s)[c := Directory (name (heap s ! c)) (owner (heap s ! c))
                                  (mode (heap s ! c))
                                  (entries (heap s ! c) @ [(part, length (heap s))])]
                       @ new_dirs (length (heap s)) u md (part # rest)\<rparr>))"
  proof (cases "denied (heap s ! c) u W")
    case True
    then show ?thesis
      using m h by simp
  next
    case False
    then show ?thesis
      using m h mkdir_loop_create [OF c, of part u rest md] by simp
  qed
next
  fix pre part rest c f
  assume h: "split_path path = pre @ part # rest \<and> walk (heap s) (root s) pre = Inr c
            \<and> is_Directory (heap s ! c) \<and> map_of (entries (heap s ! c)) part = Some f
            \<and> is_File (heap s ! f)"
  then have m: "mkdir path u md s = mkdir_loop (part # rest) c u md s"
    using mkdir_at [OF assms(2)] by blast
  have "\<not> is_Directory (heap s ! f)"
    using h by (cases "heap s ! f") simp_all
  then show "mkdir path u md s = (Inl NotADirectory, s)"
    using m h by simp
next
  fix s' assume m: "mkdir path u md s = (Inr (), s')"
  have r: "root s < length (heap s)" "is_Directory (heap s ! root s)"
    using heap_okD(1,2) [OF assms(1)] by simp_all
  show "users s' = users s" "root s' = root s" "grows (heap s) (heap s')"
    "\<exists>d. get_node path s' = Inr d \<and> is_Directory (heap s' ! d)"
    "\<And>a. length (heap s) \<le> a \<and> a < length (heap s') \<Longrightarrow>
        \<exists>nm es. heap s' ! a = Directory nm u md es \<and> nm \<in> set (split_path path)
           \<and> (es = [] \<or> (\<exists>k. es = [(k, Suc a)]))"
  proof -
    consider (root) "path = ''/'' \<or> path = []" | (loop) "\<not> (path = ''/'' \<or> path = [])"
      by blast
    then have "users s' = users s \<and> root s' = root s \<and> grows (heap s) (heap s')
       \<and> (\<exists>d. walk (heap s') (root s) (split_path path) = Inr d \<and> is_Directory (heap s' ! d))
       \<and> (\<forall>a. length (heap s) \<le> a \<and> a < length (heap s') \<longrightarrow>
             (\<exists>nm es. heap s' ! a = Directory nm u md es \<and> nm \<in> set (split_path path)
                \<and> (es = [] \<or> (\<exists>k. es = [(k, Suc a)]))))"
    proof cases
      case root
      then have "s' = s" "split_path path = []"
        using m assms(2) by (auto simp: mkdir_def split_path_empty split_path_root)
      then show ?thesis
        using r by (simp add: grows_refl)
    next
      case loop
      then have "mkdir_loop (split_path path) (root s) u md s = (Inr (), s')"
        using m assms(2) by (simp add: mkdir_def)
      then show ?thesis
        using mkdir_loop_effect [OF assms(1) r] by blast
    qed
    then show "users s' = users s" "root s' = root s" "grows (heap s) (heap s')"
      "\<exists>d. get_node path s' = Inr d \<and> is_Directory (heap s' ! d)"
      "\<And>a. length (heap s) \<le> a \<and> a < length (heap s') \<Longrightarrow>
        \<exists>nm es. heap s' ! a = Directory nm u md es \<and> nm \<in> set (split_path path)
           \<and> (es = [] \<or> (\<exists>k. es = [(k, Suc a)]))"
      by (simp_all add: get_node_def)
  qed
qed

lemma split_path_xy: "split_path ''/docs/x/y'' = [''docs'', ''x'', ''y'']"
  by (simp add: path_defs)

lemma split_path_xz: "split_path ''/docs/x/z'' = [''docs'', ''x'', ''z'']"
  by (simp add: path_defs)

lemma split_path_readme_sub:
  "split_path ''/docs/readme.txt/sub'' = [''docs'', ''readme.txt'', ''sub'']"
  by (simp add: path_defs)

lemma demo_xy_eq:
  "demo_xy = \<lparr>users = {''bob'', ''alice''},
        heap = [Directory ''/'' ''root'' 511 [(''docs'', 1)],
                Directory ''docs'' ''alice'' 511 [(''readme.txt'', 2), (''x'', 3)],
                File ''readme.txt'' ''alice'' 420 (data_bytes (Str ''Hello'')),
                Directory ''x'' ''bob'' 0 [(''y'', 4)],
                Directory ''y'' ''bob'' 0 []],
        root = 0\<rparr>"
  by (simp add: demo_xy_def demo_readme_eq mkdir_def split_path_xy denied_def check_perm_def
      Let_def)

lemma heap_ok_demo_xy: "heap_ok demo_xy"
  by (simp add: demo_xy_eq heap_ok_def node_ok_def)

theorem mkdir_rule_witness:
  "mkdir ''/docs'' ''bob'' 448 demo_readme = (Inr (), demo_readme)
   \<and> mkdir ''/docs/x/y'' ''bob'' 0 demo_readme = (Inr (), demo_xy)
   \<and> heap demo_xy
       = [Directory ''/'' ''root'' 511 [(''docs'', 1)],
          Directory ''docs'' ''alice'' 511 [(''readme.txt'', 2), (''x'', 3)],
          File ''readme.txt'' ''alice'' 420 (data_bytes (Str ''Hello'')),
          Directory ''x'' ''bob'' 0 [(''y'', 4)],
          Directory ''y'' ''bob'' 0 []]
   \<and> mkdir ''/docs/x/z'' ''alice'' 493 demo_xy = (Inl PermissionDenied, demo_xy)
   \<and> mkdir ''/docs/readme.txt/sub'' ''bob'' 448 demo_readme = (Inl NotADirectory, demo_readme)
   \<and> grows (heap demo_readme) (heap demo_xy)
   \<and> (\<exists>d. get_node ''/docs/x/y'' demo_xy = Inr d \<and> is_Directory (heap demo_xy ! d))"
proof -
  have u: "''bob'' \<in> users demo_readme" "''alice'' \<in> users demo_xy"
    by (simp_all add: demo_readme_eq demo_xy_eq)
  have g: "get_node ''/docs'' demo_readme = Inr 1 \<and> is_Directory (heap demo_readme ! 1)"
    by (simp add: demo_readme_eq get_node_def split_path_docs)
  have a: "mkdir ''/docs'' ''bob'' 448 demo_readme = (Inr (), demo_readme)"
    using mkdir_rule [OF heap_ok_demo_readme u(1), of "''/docs''" 448] g by blast
  have c: "split_path ''/docs/x/y'' = [''docs''] @ ''x'' # [''y'']
      \<and> walk (heap demo_readme) (root demo_readme) [''docs''] = Inr 1
      \<and> is_Directory (heap demo_readme ! 1)
      \<and> map_of (entries (heap demo_readme ! 1)) ''x'' = None"
    by (simp add: split_path_xy demo_readme_eq)
  have "mkdir ''/docs/x/y'' ''bob'' 0 demo_readme =
      (if denied (heap demo_readme ! 1) ''bob'' W then (Inl PermissionDenied, demo_readme)
       else (Inr (), demo_readme\<lparr>heap :=
               (heap demo_readme)[1 := Directory (name (heap demo_readme ! 1))
                   (owner (heap demo_readme ! 1)) (mode (heap demo_readme ! 1))
                   (entries (heap demo_readme ! 1) @ [(''x'', length (heap demo_readme))])]
               @ new_dirs (length (heap demo_readme)) ''bob'' 0 (''x'' # [''y''])\<rparr>))"
    using mkdir_rule [OF heap_ok_demo_readme u(1), of "''/docs/x/y''" 0] c by blast
  then have m: "mkdir ''/docs/x/y'' ''bob'' 0 demo_readme = (Inr (), demo_xy)"
    by (simp add: demo_readme_eq demo_xy_eq denied_def check_perm_def)
  have z: "split_path ''/docs/x/z'' = [''docs'', ''x''] @ ''z'' # []
      \<and> walk (heap demo_xy) (root demo_xy) [''docs'', ''x''] = Inr 3
      \<and> is_Directory (heap demo_xy ! 3)
      \<and> map_of (entries (heap demo_xy ! 3)) ''z'' = None"
    by (simp add: split_path_xz demo_xy_eq)
  have "mkdir ''/docs/x/z'' ''alice'' 493 demo_xy =
      (if denied (heap demo_xy ! 3) ''alice'' W then (Inl PermissionDenied, demo_xy)
       else (Inr (), demo_xy\<lparr>heap :=
               (heap demo_xy)[3 := Directory (name (heap demo_xy ! 3))
                   (owner (heap demo_xy ! 3)) (mode (heap demo_xy ! 3))
                   (entries (heap demo_xy ! 3) @ [(''z'', length (heap demo_xy))])]
               @ new_dirs (length (heap demo_xy)) ''alice'' 493 (''z'' # [])\<rparr>))"
    using mkdir_rule [OF heap_ok_demo_xy u(2), of "''/docs/x/z''" 493] z by blast
  then have p: "mkdir ''/docs/x/z'' ''alice'' 493 demo_xy = (Inl PermissionDenied, demo_xy)"
    by (simp add: demo_xy_eq denied_def check_perm_def)
  have f: "split_path ''/docs/readme.txt/sub'' = [''docs''] @ ''readme.txt'' # [''sub'']
      \<and> walk (heap demo_readme) (root demo_readme) [''docs''] = Inr 1
      \<and> is_Directory (heap demo_readme ! 1)
      \<and> map_of (entries (heap demo_readme ! 1)) ''readme.txt'' = Some 2
      \<and> is_File (heap demo_readme ! 2)"
    by (simp add: split_path_readme_sub demo_readme_eq)
  have n: "mkdir ''/docs/readme.txt/sub'' ''bob'' 448 demo_readme = (Inl NotADirectory, demo_readme)"
    using mkdir_rule [OF heap_ok_demo_readme u(1), of "''/docs/readme.txt/sub''" 448] f
    by blast
  have b: "grows (heap demo_readme) (heap demo_xy)
      \<and> (\<exists>d. get_node ''/docs/x/y'' demo_xy = Inr d \<and> is_Directory (heap demo_xy ! d))"
    using mkdir_rule [OF heap_ok_demo_readme u(1), of "''/docs/x/y''" 0] m by blast
  have "heap demo_xy
       = [Directory ''/'' ''root'' 511 [(''docs'', 1)],
          Directory ''docs'' ''alice'' 511 [(''readme.txt'', 2), (''x'', 3)],
          File ''readme.txt'' ''alice'' 420 (data_bytes (Str ''Hello'')),
          Directory ''x'' ''bob'' 0 [(''y'', 4)],
          Directory ''y'' ''bob'' 0 []]"
    by (simp add: demo_xy_eq)
  with a m p n b show ?thesis
    by (intro conjI) simp_all
qed
section \<open>Paths with dot-dot segments\<close>

lemma split_from_app:
  "CHR ''/'' \<notin> set x \<Longrightarrow> split_from cur (x @ rest) = split_from (cur @ x) rest"
  by (induction x arbitrary: cur) auto

lemma split_from_slash:
  "split_from cur (p @ CHR ''/'' # q) = split_from cur p @ split_from [] q"
  by (induction p arbitrary: cur) auto

lemma split_sep_slash: "split_sep (p @ CHR ''/'' # q) = split_sep p @ split_sep q"
  by (simp add: split_sep_def split_from_slash)

lemma split_sep_plain: "CHR ''/'' \<notin> set c \<Longrightarrow> split_sep c = [c]"
  using split_from_app [of c "[]" "[]"] by (simp add: split_sep_def)

lemma split_from_no_sep:
  "CHR ''/'' \<notin> set cur \<Longrightarrow> c \<in> set (split_from cur p) \<Longrightarrow> CHR ''/'' \<notin> set c"
proof (induction p arbitrary: cur)
  case Nil
  then show ?case by simp
next
  case (Cons x p)
  show ?case
  proof (cases "x = CHR ''/''")
    case True
    then have "c = cur \<or> c \<in> set (split_from [] p)"
      using Cons.prems(2) by simp
    then show ?thesis
      using Cons.prems(1) Cons.IH [of "[]"] by auto
  next
    case False
    then have "c \<in> set (split_from (cur @ [x]) p)"
      using Cons.prems(2) by simp
    then show ?thesis
      using False Cons.prems(1) Cons.IH [of "cur @ [x]"] by simp
  qed
qed

lemma split_sep_no_sep: "c \<in> set (split_sep p) \<Longrightarrow> CHR ''/'' \<notin> set c"
  unfolding split_sep_def using split_from_no_sep [of "[]"] by simp

lemma split_join:
  "\<forall>c\<in>set comps. c \<noteq> [] \<and> CHR ''/'' \<notin> set c
   \<Longrightarrow> filter (\<lambda>part. part \<noteq> []) (split_sep (join_sep comps)) = comps"
proof (induction comps rule: join_sep.induct)
  case 1
  show ?case by (simp add: split_sep_def)
next
  case (2 x)
  then show ?case by (simp add: split_sep_plain)
next
  case (3 x y ys)
  then show ?case by (simp add: split_sep_slash split_sep_plain)
qed

lemma join_sep_Nil: "\<forall>c\<in>set comps. c \<noteq> [] \<Longrightarrow> join_sep comps = [] \<longleftrightarrow> comps = []"
  by (induction comps rule: join_sep.induct) auto

lemma join_sep_hd:
  "\<forall>c\<in>set comps. c \<noteq> [] \<and> CHR ''/'' \<notin> set c \<Longrightarrow> take 1 (join_sep comps) \<noteq> ''/''"
proof (induction comps rule: join_sep.induct)
  case 1
  show ?case by simp
next
  case (2 x)
  then show ?case by (cases x) auto
next
  case (3 x y ys)
  then show ?case by (cases x) auto
qed

lemma join_sep_not_dot:
  "\<forall>c\<in>set comps. c \<noteq> [] \<and> c \<noteq> ''.'' \<and> CHR ''/'' \<notin> set c \<Longrightarrow> join_sep comps \<noteq> ''.''"
proof (induction comps rule: join_sep.induct)
  case 1
  show ?case by simp
next
  case (2 x)
  then show ?case by simp
next
  case (3 x y ys)
  then show ?case by (cases x) (auto simp: Cons_eq_append_conv)
qed

lemma norm_comps_set:
  "c \<in> set (norm_comps i acc comps)
   \<Longrightarrow> c \<in> set acc \<or> (c \<in> set comps \<and> c \<noteq> [] \<and> c \<noteq> ''.'')"
proof (induction comps arbitrary: acc)
  case Nil
  then show ?case by simp
next
  case (Cons x comps)
  show ?case
    using Cons.prems Cons.IH [of acc] Cons.IH [of "acc @ [x]"] Cons.IH [of "butlast acc"]
    by (auto split: if_splits dest: in_set_butlastD)
qed

lemma norm_comps_append:
  "norm_comps i acc (xs @ ys) = norm_comps i (norm_comps i acc xs) ys"
  by (induction xs arbitrary: acc) simp_all

lemma norm_comps_abs: "i \<noteq> 0 \<Longrightarrow> norm_comps i acc comps = norm_comps 1 acc comps"
  by (induction comps arbitrary: acc) simp_all

lemma norm_comps_no_dotdot:
  "i \<noteq> 0 \<Longrightarrow> ''..'' \<notin> set acc \<Longrightarrow> ''..'' \<notin> set (norm_comps i acc comps)"
proof (induction comps arbitrary: acc)
  case Nil
  then show ?case by simp
next
  case (Cons x comps)
  have "''..'' \<notin> set (butlast acc)"
    using Cons.prems(2) by (auto dest: in_set_butlastD)
  moreover have "acc \<noteq> [] \<Longrightarrow> last acc \<noteq> ''..''"
    using Cons.prems(2) last_in_set by metis
  ultimately show ?case
    using Cons by auto
qed

lemma split_path_comps: "split_path p = norm_comps (initial_slashes p) [] (split_sep p)"
proof (cases "p = []")
  case True
  then show ?thesis
    by (simp add: split_path_def normpath_def initial_slashes_def split_sep_def)
next
  case False
  let ?i = "initial_slashes p"
  let ?C = "norm_comps ?i [] (split_sep p)"
  let ?q = "replicate ?i CHR ''/'' @ join_sep ?C"
  have C: "\<forall>c\<in>set ?C. c \<noteq> [] \<and> c \<noteq> ''.'' \<and> CHR ''/'' \<notin> set c"
    using norm_comps_set [of _ ?i "[]" "split_sep p"] split_sep_no_sep [of _ p] by auto
  then have C': "\<forall>c\<in>set ?C. c \<noteq> [] \<and> CHR ''/'' \<notin> set c" and C'': "\<forall>c\<in>set ?C. c \<noteq> []"
    by simp_all
  have n: "normpath p = (if ?q = [] then ''.'' else ?q)"
    using False by (simp add: normpath_def Let_def)
  have "?i = 0 \<or> ?i = 1 \<or> ?i = 2"
    by (simp add: initial_slashes_def)
  then show ?thesis
  proof (elim disjE)
    assume zero: "?i = 0"
    show ?thesis
    proof (cases "?C = []")
      case True
      then show ?thesis
        using zero n by (simp add: split_path_def)
    next
      case False
      then have "join_sep ?C \<noteq> []"
        using join_sep_Nil [OF C''] by simp
      then show ?thesis
        using zero n join_sep_not_dot [OF C] join_sep_hd [OF C'] split_join [OF C']
        by (simp add: split_path_def Let_def)
    qed
  next
    assume one: "?i = 1"
    then show ?thesis
      using n split_join [OF C'] by (simp add: split_path_def Let_def)
  next
    assume two: "?i = 2"
    have "split_sep (CHR ''/'' # join_sep ?C) = [] # split_sep (join_sep ?C)"
      using split_sep_slash [of "[]" "join_sep ?C"] by (simp add: split_sep_def)
    then show ?thesis
      using two n split_join [OF C'] by (simp add: split_path_def Let_def numeral_2_eq_2)
  qed
qed

lemma split_path_abs:
  assumes "take 1 p = ''/''"
  shows "split_path p = norm_comps 1 [] (split_sep p)"
proof -
  have "initial_slashes p \<noteq> 0"
    using assms by (simp add: initial_slashes_def)
  then show ?thesis
    using norm_comps_abs [of "initial_slashes p"] by (simp add: split_path_comps)
qed

lemma norm_comps_cancel:
  assumes "c \<noteq> []" and "c \<noteq> ''.''" and "c \<noteq> ''..''"
  shows "norm_comps 1 acc (c # ''..'' # comps) = norm_comps 1 acc comps"
  using assms by simp

lemma split_path_a_c: "split_path ''/a/c'' = [''a'', ''c'']"
  by (simp add: path_defs)

lemma split_path_a_b_c: "split_path ''/a/b/../c'' = [''a'', ''c'']"
  by (simp add: path_defs)

text \<open>
  Claim C10. \<open>_split_path\<close> resolves \<open>..\<close> on the string alone, before any lookup in the
  tree. For an absolute path \<open>p\<close>: no component of the result is \<open>..\<close>; an ordinary
  component followed by \<open>..\<close> cancels, at the end of the path and in the middle of it; a
  \<open>..\<close> at the root is dropped. So \<open>/a/b/../c\<close> has the components of \<open>/a/c\<close> and resolves
  to the same node in every state, whether or not \<open>/a/b\<close> exists. (\<open>split_path_comps\<close>: the
  components are those that the loop of \<open>normpath\<close> keeps.)
\<close>

theorem dotdot_is_syntactic:
  "(take 1 p = ''/'' \<longrightarrow>
      ''..'' \<notin> set (split_path p)
      \<and> (c \<noteq> [] \<and> c \<noteq> ''.'' \<and> c \<noteq> ''..'' \<and> CHR ''/'' \<notin> set c \<longrightarrow>
           split_path (p @ ''/'' @ c @ ''/..'') = split_path p
           \<and> split_path (p @ ''/'' @ c @ ''/../'' @ r) = split_path (p @ ''/'' @ r)))
   \<and> split_path (''/..'') = [] \<and> split_path (''/../'' @ r) = split_path (''/'' @ r)
   \<and> split_path ''/a/b/../c'' = [''a'', ''c'']
   \<and> get_node ''/a/b/../c'' s = get_node ''/a/c'' s"
proof (intro conjI impI)
  show "split_path ''/a/b/../c'' = [''a'', ''c'']"
    by (rule split_path_a_b_c)
  show "get_node ''/a/b/../c'' s = get_node ''/a/c'' s"
    by (simp add: get_node_def split_path_a_b_c split_path_a_c)
  show "split_path ''/..'' = []"
    by (simp add: path_defs)
  have "split_sep (''/../'' @ r) = [] # ''..'' # split_sep r"
    using split_sep_slash [of "[]" "''../'' @ r"] split_sep_slash [of "''..''" r]
    by (simp add: split_sep_def)
  moreover have "split_sep (''/'' @ r) = [] # split_sep r"
    using split_sep_slash [of "[]" r] by (simp add: split_sep_def)
  ultimately show "split_path (''/../'' @ r) = split_path (''/'' @ r)"
    by (simp add: split_path_abs)
next
  assume a: "take 1 p = ''/''"
  show "''..'' \<notin> set (split_path p)"
    using norm_comps_no_dotdot [of 1 "[]" "split_sep p"] by (simp add: split_path_abs [OF a])
  assume c: "c \<noteq> [] \<and> c \<noteq> ''.'' \<and> c \<noteq> ''..'' \<and> CHR ''/'' \<notin> set c"
  have abs: "take 1 (p @ x) = ''/''" for x
    using a by (cases p) simp_all
  have s1: "split_sep (p @ CHR ''/'' # c @ ''/..'') = split_sep p @ [c, ''..'']"
    using split_sep_slash [of p "c @ ''/..''"] split_sep_slash [of c "''..''"] c
    by (simp add: split_sep_plain)
  have s2: "split_sep (p @ CHR ''/'' # c @ CHR ''/'' # CHR ''.'' # CHR ''.'' # CHR ''/'' # r)
      = split_sep p @ [c, ''..''] @ split_sep r"
    using split_sep_slash [of p "c @ ''/../'' @ r"] split_sep_slash [of c "''../'' @ r"]
      split_sep_slash [of "''..''" r] c
    by (simp add: split_sep_plain)
  have s3: "split_sep (p @ CHR ''/'' # r) = split_sep p @ split_sep r"
    using split_sep_slash [of p r] by simp
  show "split_path (p @ ''/'' @ c @ ''/..'') = split_path p"
    using c split_path_abs [OF abs, of "''/'' @ c @ ''/..''"] split_path_abs [OF a]
    by (simp add: s1 norm_comps_append)
  show "split_path (p @ ''/'' @ c @ ''/../'' @ r) = split_path (p @ ''/'' @ r)"
    using c split_path_abs [OF abs, of "''/'' @ c @ ''/../'' @ r"]
      split_path_abs [OF abs, of "''/'' @ r"]
    by (simp add: s2 s3 norm_comps_append)
qed

theorem dotdot_is_syntactic_witness:
  "take 1 ''/a'' = ''/'' \<and> ''..'' \<notin> set (split_path ''/a'')
   \<and> split_path ''/a/b/..'' = split_path ''/a''
   \<and> split_path ''/a/b/../c'' = split_path ''/a/c''
   \<and> split_path ''/../c'' = split_path ''/c''"
  using dotdot_is_syntactic [of "''/a''" "''b''" "''c''"] by simp

end
